theory Spec2Isabelle
  imports Complex_Main "HOL-Library.Sublist"
begin

section \<open>Linguistic feature extraction of \<^verbatim>\<open>scripts/validate_dreaddit.py\<close>\<close>

text \<open>
  The development embeds \<^verbatim>\<open>LinguisticFeatures\<close> and \<^verbatim>\<open>LinguisticExtractor\<close>.

  \<^item> A Python \<^verbatim>\<open>str\<close> is a \<open>string\<close> whose characters are the code points
    U+0000 to U+00FF, one \<open>char\<close> per code point. The character classes of Python
    (\<^verbatim>\<open>\w\<close>, white space, \<^verbatim>\<open>lower\<close>, \<^verbatim>\<open>isupper\<close>) are written out for that range.
  \<^item> A Python \<^verbatim>\<open>int\<close> is an \<open>int\<close>.
  \<^item> A Python \<^verbatim>\<open>float\<close> is a \<open>rat\<close>: the arithmetic is exact, rounding is not modelled.
  \<^item> An operation that raises, or that yields a NaN, returns \<open>Inl\<close> of an \<open>error\<close>.
  \<^item> The regular expressions go through a small backtracking matcher that follows
    the search loop of \<^verbatim>\<open>re.findall\<close> and \<^verbatim>\<open>re.split\<close>.
\<close>

subsection \<open>Errors\<close>

datatype error = ZeroDivisionError | IndexError | NotANumber

definition bind_err :: "error + 'a \<Rightarrow> ('a \<Rightarrow> error + 'b) \<Rightarrow> error + 'b" where
  "bind_err m k = (case m of Inl e \<Rightarrow> Inl e | Inr v \<Rightarrow> k v)"

text \<open>\<^verbatim>\<open>a / b\<close> on two ints: true division, \<^verbatim>\<open>ZeroDivisionError\<close> when \<^verbatim>\<open>b == 0\<close>.\<close>

definition py_truediv :: "int \<Rightarrow> int \<Rightarrow> error + rat" where
  "py_truediv a b = (if b = 0 then Inl ZeroDivisionError else Inr (of_int a / of_int b))"

text \<open>\<^verbatim>\<open>np.mean(xs)\<close>: the arithmetic mean; NaN on the empty list.\<close>

definition np_mean :: "int list \<Rightarrow> error + rat" where
  "np_mean xs = (if xs = [] then Inl NotANumber
                 else Inr (of_int (sum_list xs) / of_int (int (length xs))))"

text \<open>\<^verbatim>\<open>s[i]\<close>: a negative index counts from the end, \<^verbatim>\<open>IndexError\<close> out of range.\<close>

definition str_index :: "string \<Rightarrow> int \<Rightarrow> error + char" where
  "str_index s i =
     (let n = int (length s); j = (if i < 0 then n + i else i)
      in if 0 \<le> j \<and> j < n then Inr (s ! nat j) else Inl IndexError)"

subsection \<open>Characters and strings of Python\<close>

definition code_point :: "char \<Rightarrow> nat" where
  "code_point c = of_char c"

text \<open>\<^verbatim>\<open>[a-zA-Z]\<close>\<close>

definition is_ascii_letter :: "char \<Rightarrow> bool" where
  "is_ascii_letter c =
     (let n = code_point c in (65 \<le> n \<and> n \<le> 90) \<or> (97 \<le> n \<and> n \<le> 122))"

text \<open>\<^verbatim>\<open>\w\<close> of a \<^verbatim>\<open>str\<close> pattern: alphanumeric in Unicode, or the underscore.\<close>

definition is_word_char :: "char \<Rightarrow> bool" where
  "is_word_char c =
     (let n = code_point c in
        (48 \<le> n \<and> n \<le> 57) \<or> (65 \<le> n \<and> n \<le> 90) \<or> n = 95 \<or> (97 \<le> n \<and> n \<le> 122)
        \<or> n = 170 \<or> n = 178 \<or> n = 179 \<or> n = 181 \<or> n = 185 \<or> n = 186
        \<or> (188 \<le> n \<and> n \<le> 190) \<or> (192 \<le> n \<and> n \<le> 214) \<or> (216 \<le> n \<and> n \<le> 246)
        \<or> 248 \<le> n)"

text \<open>White space of \<^verbatim>\<open>str.strip()\<close> and \<^verbatim>\<open>str.split()\<close>.\<close>

definition is_space :: "char \<Rightarrow> bool" where
  "is_space c =
     (let n = code_point c in
        (9 \<le> n \<and> n \<le> 13) \<or> (28 \<le> n \<and> n \<le> 32) \<or> n = 133 \<or> n = 160)"

definition is_upper_char :: "char \<Rightarrow> bool" where
  "is_upper_char c =
     (let n = code_point c in
        (65 \<le> n \<and> n \<le> 90) \<or> (192 \<le> n \<and> n \<le> 214) \<or> (216 \<le> n \<and> n \<le> 222))"

definition is_lower_char :: "char \<Rightarrow> bool" where
  "is_lower_char c =
     (let n = code_point c in
        (97 \<le> n \<and> n \<le> 122) \<or> n = 170 \<or> n = 181 \<or> n = 186
        \<or> (223 \<le> n \<and> n \<le> 246) \<or> 248 \<le> n)"

definition lower_char :: "char \<Rightarrow> char" where
  "lower_char c = (if is_upper_char c then char_of (code_point c + 32) else c)"

text \<open>\<^verbatim>\<open>s.lower()\<close>\<close>

definition lower :: "string \<Rightarrow> string" where
  "lower s = map lower_char s"

text \<open>\<^verbatim>\<open>s.isupper()\<close>: some cased character, and no lower-case one.\<close>

definition isupper :: "string \<Rightarrow> bool" where
  "isupper s = ((\<exists>c \<in> set s. is_upper_char c) \<and> (\<forall>c \<in> set s. \<not> is_lower_char c))"

text \<open>\<^verbatim>\<open>s.strip()\<close>\<close>

definition strip :: "string \<Rightarrow> string" where
  "strip s = rev (dropWhile is_space (rev (dropWhile is_space s)))"

text \<open>\<^verbatim>\<open>s.endswith(t)\<close>\<close>

definition endswith :: "string \<Rightarrow> string \<Rightarrow> bool" where
  "endswith s t = suffix t s"

text \<open>\<^verbatim>\<open>s.split()\<close>: the maximal runs of characters that are not white space.\<close>

fun split_ws :: "string \<Rightarrow> string \<Rightarrow> string list" where
  "split_ws cur [] = (if cur = [] then [] else [rev cur])"
| "split_ws cur (c # cs) =
     (if is_space c then (if cur = [] then split_ws [] cs else rev cur # split_ws [] cs)
      else split_ws (c # cur) cs)"

definition py_split :: "string \<Rightarrow> string list" where
  "py_split s = split_ws [] s"

text \<open>
  \<^verbatim>\<open>s.count(sub)\<close>: the occurrences of \<^verbatim>\<open>sub\<close> found from left to right, the search
  resuming behind each occurrence; \<^verbatim>\<open>len(s) + 1\<close> for the empty \<^verbatim>\<open>sub\<close>.
\<close>

function str_count :: "string \<Rightarrow> string \<Rightarrow> int" where
  "str_count s sub =
     (if sub = [] then int (length s) + 1
      else if s = [] then 0
      else if prefix sub s then 1 + str_count (drop (length sub) s) sub
      else str_count (tl s) sub)"
  by pat_completeness auto
termination
  by (relation "measure (\<lambda>(s, sub). length s)") auto

declare str_count.simps [simp del]

subsection \<open>Regular expressions\<close>

text \<open>
  The fragment of \<^verbatim>\<open>re\<close> the extractor uses: a literal (an escaped phrase), one or
  more characters of a class (greedy), \<^verbatim>\<open>\b\<close>, concatenation, and a greedy optional
  group. A matcher state is the character before the position (if any) and the text
  from the position on.
\<close>

datatype regex =
    Lit string
  | Plus "char \<Rightarrow> bool"
  | WordB
  | Seq regex regex
  | Opt regex

type_synonym mstate = "char option \<times> string"

fun advance :: "nat \<Rightarrow> mstate \<Rightarrow> mstate" where
  "advance 0 st = st"
| "advance (Suc n) (p, []) = (p, [])"
| "advance (Suc n) (p, c # cs) = advance n (Some c, cs)"

text \<open>\<^verbatim>\<open>\b\<close>: exactly one of the two neighbours is a word character.\<close>

fun at_boundary :: "mstate \<Rightarrow> bool" where
  "at_boundary (p, s) =
     ((case p of None \<Rightarrow> False | Some c \<Rightarrow> is_word_char c)
      \<noteq> (case s of [] \<Rightarrow> False | c # _ \<Rightarrow> is_word_char c))"

text \<open>
  All the ways a pattern matches at a state, as the states behind the match, in the
  order the backtracking matcher tries them: a greedy repetition offers the longest
  run first, an optional group is tried before it is skipped.
\<close>

fun matches :: "regex \<Rightarrow> mstate \<Rightarrow> mstate list" where
  "matches (Lit w) (p, s) = (if prefix w s then [advance (length w) (p, s)] else [])"
| "matches (Plus cls) (p, s) =
     map (\<lambda>k. advance k (p, s)) (rev [1 ..< Suc (length (takeWhile cls s))])"
| "matches WordB st = (if at_boundary st then [st] else [])"
| "matches (Seq r1 r2) st = concat (map (matches r2) (matches r1 st))"
| "matches (Opt r) st = matches r st @ [st]"

lemma advance_length: "length (snd (advance n (p, s))) \<le> length s"
proof (induction n "(p, s)" arbitrary: p s rule: advance.induct)
  case (3 n p c cs)
  then show ?case by (simp add: le_Suc_eq)
qed simp_all

lemma matches_length: "st' \<in> set (matches r st) \<Longrightarrow> length (snd st') \<le> length (snd st)"
proof (induction r arbitrary: st st')
  case (Lit w)
  then show ?case
    by (cases st) (auto split: if_splits simp: advance_length)
next
  case (Plus cls)
  then show ?case
    by (cases st) (auto simp: advance_length)
next
  case WordB
  then show ?case by (auto split: if_splits)
next
  case (Seq r1 r2)
  from Seq.prems obtain m where m: "m \<in> set (matches r1 st)" "st' \<in> set (matches r2 m)"
    by auto
  from Seq.IH(1) [OF m(1)] Seq.IH(2) [OF m(2)] show ?case by simp
next
  case (Opt r)
  from Opt.prems have "st' \<in> set (matches r st) \<or> st' = st"
    by auto
  then show ?case
  proof
    assume "st' \<in> set (matches r st)"
    then show ?thesis by (rule Opt.IH)
  next
    assume "st' = st"
    then show ?thesis by simp
  qed
qed

text \<open>
  The first way to match at a state; \<open>adv\<close> is the \<^verbatim>\<open>must_advance\<close> flag of the search
  loop: behind an empty match, an empty match at the same position is refused.
\<close>

definition first_match :: "regex \<Rightarrow> bool \<Rightarrow> mstate \<Rightarrow> mstate option" where
  "first_match r adv st =
     (case filter (\<lambda>st'. adv \<longrightarrow> length (snd st') < length (snd st)) (matches r st) of
        [] \<Rightarrow> None
      | st' # _ \<Rightarrow> Some st')"

lemma first_match_length:
  assumes "first_match r adv st = Some st'"
  shows "length (snd st') \<le> length (snd st)"
    and "adv \<Longrightarrow> length (snd st') < length (snd st)"
proof -
  let ?ok = "\<lambda>x. adv \<longrightarrow> length (snd x) < length (snd st)"
  from assms obtain rest where "filter ?ok (matches r st) = st' # rest"
    by (auto simp: first_match_def split: list.splits)
  then have "st' \<in> set (filter ?ok (matches r st))"
    by simp
  then have mem: "st' \<in> set (matches r st)" and ok: "?ok st'"
    by simp_all
  from mem show "length (snd st') \<le> length (snd st)"
    by (rule matches_length)
  from ok show "adv \<Longrightarrow> length (snd st') < length (snd st)"
    by simp
qed

text \<open>
  \<^verbatim>\<open>re.findall(r, text)\<close> for a pattern without capturing groups: search from the
  current position for the leftmost match, keep the matched text, go on behind it.
\<close>

function findall_from :: "regex \<Rightarrow> bool \<Rightarrow> mstate \<Rightarrow> string list" where
  "findall_from r adv (p, s) =
     (case first_match r adv (p, s) of
        Some (p', s') \<Rightarrow>
          take (length s - length s') s # findall_from r (length s' = length s) (p', s')
      | None \<Rightarrow>
          (case s of [] \<Rightarrow> [] | c # cs \<Rightarrow> findall_from r False (Some c, cs)))"
  by pat_completeness auto
termination
proof (relation "measure (\<lambda>(r, adv, p, s). 2 * length s + (if adv then 0 else 1))")
  show "wf (measure (\<lambda>(r, adv, p, s). 2 * length s + (if adv then 0 else 1)))"
    by simp
next
  fix r :: regex and adv :: bool and p :: "char option" and s :: string
    and x2 :: mstate and p' :: "char option" and s' :: string
  assume "first_match r adv (p, s) = Some x2" and "(p', s') = x2"
  then have fm: "first_match r adv (p, s) = Some (p', s')"
    by simp
  from first_match_length [OF fm] show
    "((r, length s' = length s, p', s'), (r, adv, p, s))
       \<in> measure (\<lambda>(r, adv, p, s). 2 * length s + (if adv then 0 else 1))"
    by (cases adv) (auto simp: le_less)
next
  fix r :: regex and adv :: bool and p :: "char option" and s :: string
    and c :: char and cs :: string
  assume "s = c # cs"
  then show "((r, False, Some c, cs), (r, adv, p, s))
       \<in> measure (\<lambda>(r, adv, p, s). 2 * length s + (if adv then 0 else 1))"
    by simp
qed

declare findall_from.simps [simp del]

definition findall :: "regex \<Rightarrow> string \<Rightarrow> string list" where
  "findall r text = findall_from r False (None, text)"

text \<open>
  \<^verbatim>\<open>re.split(r, text)\<close> for a pattern without capturing groups: the same search
  loop, keeping the text between the matches; \<open>cur\<close> is the piece read so far, reversed.
\<close>

function split_from :: "regex \<Rightarrow> bool \<Rightarrow> string \<Rightarrow> mstate \<Rightarrow> string list" where
  "split_from r adv cur (p, s) =
     (case first_match r adv (p, s) of
        Some (p', s') \<Rightarrow> rev cur # split_from r (length s' = length s) [] (p', s')
      | None \<Rightarrow>
          (case s of [] \<Rightarrow> [rev cur] | c # cs \<Rightarrow> split_from r False (c # cur) (Some c, cs)))"
  by pat_completeness auto
termination
proof (relation "measure (\<lambda>(r, adv, cur, p, s). 2 * length s + (if adv then 0 else 1))")
  show "wf (measure (\<lambda>(r, adv, cur, p, s). 2 * length s + (if adv then 0 else 1)))"
    by simp
next
  fix r :: regex and adv :: bool and cur :: string and p :: "char option" and s :: string
    and x2 :: mstate and p' :: "char option" and s' :: string
  assume "first_match r adv (p, s) = Some x2" and "(p', s') = x2"
  then have fm: "first_match r adv (p, s) = Some (p', s')"
    by simp
  from first_match_length [OF fm] show
    "((r, length s' = length s, [], p', s'), (r, adv, cur, p, s))
       \<in> measure (\<lambda>(r, adv, cur, p, s). 2 * length s + (if adv then 0 else 1))"
    by (cases adv) (auto simp: le_less)
next
  fix r :: regex and adv :: bool and cur :: string and p :: "char option" and s :: string
    and c :: char and cs :: string
  assume "s = c # cs"
  then show "((r, False, c # cur, Some c, cs), (r, adv, cur, p, s))
       \<in> measure (\<lambda>(r, adv, cur, p, s). 2 * length s + (if adv then 0 else 1))"
    by simp
qed

declare split_from.simps [simp del]

definition re_split :: "regex \<Rightarrow> string \<Rightarrow> string list" where
  "re_split r text = split_from r False [] (None, text)"

subsection \<open>Word lists\<close>

definition HEDGE_WORDS :: "string list" where
  "HEDGE_WORDS =
     [''maybe'', ''perhaps'', ''possibly'', ''probably'', ''might'', ''could'',
      ''sort of'', ''kind of'', ''i think'', ''i guess'', ''i suppose'',
      ''seems'', ''appears'', ''likely'', ''unlikely'', ''somewhat'',
      ''fairly'', ''rather'', ''quite'', ''a bit'', ''a little'',
      ''in my opinion'', ''i believe'', ''i feel'', ''not sure'']"

definition CERTAINTY_MARKERS :: "string list" where
  "CERTAINTY_MARKERS =
     [''definitely'', ''certainly'', ''absolutely'', ''clearly'', ''obviously'',
      ''undoubtedly'', ''surely'', ''of course'', ''without doubt'',
      ''no question'', ''for sure'', ''guaranteed'', ''always'', ''never'',
      ''must'', ''will'', ''know for a fact'']"

definition URGENCY_WORDS :: "string list" where
  "URGENCY_WORDS =
     [''urgent'', ''asap'', ''immediately'', ''now'', ''hurry'',
      ''emergency'', ''critical'', ''deadline'', ''rush'', ''quick'',
      ''fast'', ''right away'', ''time-sensitive'', ''pressing'']"

definition POLITENESS_MARKERS :: "string list" where
  "POLITENESS_MARKERS =
     [''please'', ''thank you'', ''thanks'', ''appreciate'',
      ''sorry'', ''excuse me'', ''pardon'', ''would you mind'']"

definition FIRST_PERSON :: "string list" where
  "FIRST_PERSON = [''i'', ''me'', ''my'', ''mine'', ''myself'', ''we'', ''us'', ''our'', ''ours'']"

definition FILLER_WORDS :: "string list" where
  "FILLER_WORDS =
     [''um'', ''uh'', ''like'', ''you know'', ''basically'',
      ''actually'', ''literally'', ''honestly'', ''well'']"

definition NEGATIVE_EMOTION_WORDS :: "string list" where
  "NEGATIVE_EMOTION_WORDS =
     [''worried'', ''worry'', ''worries'', ''anxious'', ''anxiety'', ''nervous'',
      ''afraid'', ''fear'', ''scared'', ''panic'', ''stressed'', ''stress'',
      ''tense'', ''uneasy'', ''dread'', ''dreading'',
      ''upset'', ''frustrated'', ''annoyed'', ''angry'', ''mad'',
      ''sad'', ''depressed'', ''hopeless'', ''miserable'',
      ''terrible'', ''awful'', ''horrible'', ''worst'',
      ''struggling'', ''suffering'', ''overwhelmed'', ''exhausted'',
      ''desperate'', ''helpless'', ''stuck'', ''lost'']"

definition ABSOLUTIST_WORDS :: "string list" where
  "ABSOLUTIST_WORDS =
     [''always'', ''never'', ''nothing'', ''everything'', ''completely'',
      ''totally'', ''absolutely'', ''entirely'', ''impossible'', ''definitely'']"

definition imperative_starters :: "string list" where
  "imperative_starters =
     [''do'', ''don'' @ [CHR 0x27] @ ''t'', ''please'', ''let'', ''make'', ''take'', ''give'',
      ''get'', ''go'', ''come'', ''tell'', ''help'', ''stop'', ''start'',
      ''try'', ''send'', ''call'', ''check'', ''look'', ''see'', ''read'']"

subsection \<open>The feature record and the composite scores\<close>

record LinguisticFeatures =
  char_count :: int
  word_count :: int
  sentence_count :: int
  avg_word_length :: rat
  avg_sentence_length :: rat
  long_word_ratio :: rat
  reading_grade_level :: rat
  exclamation_ratio :: rat
  question_ratio :: rat
  caps_word_count :: int
  caps_ratio :: rat
  hedge_count :: int
  hedge_density :: rat
  certainty_count :: int
  contraction_ratio :: rat
  politeness_count :: int
  first_person_ratio :: rat
  urgency_word_count :: int
  imperative_count :: int
  filler_ratio :: rat
  negative_emotion_count :: int
  negative_emotion_density :: rat
  absolutist_count :: int
  absolutist_density :: rat

text \<open>\<^verbatim>\<open>LinguisticFeatures()\<close>: every field at its default.\<close>

definition default_features :: LinguisticFeatures where
  "default_features =
     \<lparr>char_count = 0, word_count = 0, sentence_count = 0,
      avg_word_length = 0, avg_sentence_length = 0, long_word_ratio = 0,
      reading_grade_level = 0,
      exclamation_ratio = 0, question_ratio = 0, caps_word_count = 0, caps_ratio = 0,
      hedge_count = 0, hedge_density = 0, certainty_count = 0, contraction_ratio = 0,
      politeness_count = 0, first_person_ratio = 0, urgency_word_count = 0,
      imperative_count = 0, filler_ratio = 0,
      negative_emotion_count = 0, negative_emotion_density = 0,
      absolutist_count = 0, absolutist_density = 0\<rparr>"

definition uncertainty_score :: "LinguisticFeatures \<Rightarrow> rat" where
  "uncertainty_score f =
     (let hedge_component = min (hedge_density f * 2.0) 1.0 * 0.6;
          question_component = min (question_ratio f * 3.0) 1.0 * 0.4
      in hedge_component + question_component)"

definition uncertainty_score_v2 :: "LinguisticFeatures \<Rightarrow> rat" where
  "uncertainty_score_v2 f =
     (let base = uncertainty_score f;
          neg_emotion = min (negative_emotion_density f * 2.0) 1.0;
          first_person = min (first_person_ratio f * 2.0) 1.0
      in base * 0.4 + neg_emotion * 0.4 + first_person * 0.2)"

definition emotional_intensity :: "LinguisticFeatures \<Rightarrow> rat" where
  "emotional_intensity f =
     (let exclaim = min (exclamation_ratio f * 5.0) 1.0 * 0.5;
          caps = min (caps_ratio f * 3.0) 1.0 * 0.5
      in exclaim + caps)"

definition formality_score :: "LinguisticFeatures \<Rightarrow> rat" where
  "formality_score f =
     (let contraction_penalty = contraction_ratio f * 0.4;
          complexity_bonus = min (reading_grade_level f / 12.0) 1.0 * 0.4;
          filler_penalty = filler_ratio f * 0.2
      in max 0.0 (min 1.0 (0.5 + complexity_bonus - contraction_penalty - filler_penalty)))"

definition complexity_score :: "LinguisticFeatures \<Rightarrow> rat" where
  "complexity_score f =
     (let grade = min (reading_grade_level f / 12.0) 1.0 * 0.4;
          sentence_len = min (avg_sentence_length f / 25.0) 1.0 * 0.3;
          long_words = long_word_ratio f * 0.3
      in grade + sentence_len + long_words)"

subsection \<open>The extractor\<close>

record LinguisticExtractor =
  long_word_threshold :: int
  min_caps_word_length :: int

text \<open>\<^verbatim>\<open>LinguisticExtractor()\<close>\<close>

definition default_extractor :: LinguisticExtractor where
  "default_extractor = \<lparr>long_word_threshold = 6, min_caps_word_length = 2\<rparr>"

definition apostrophe :: string where
  "apostrophe = [CHR 0x27]"

text \<open>\<^verbatim>\<open>\b[a-zA-Z]+(?:'[a-zA-Z]+)?\b\<close>\<close>

definition word_pattern :: regex where
  "word_pattern =
     Seq WordB (Seq (Plus is_ascii_letter)
       (Seq (Opt (Seq (Lit apostrophe) (Plus is_ascii_letter))) WordB))"

definition tokenize_words :: "string \<Rightarrow> string list" where
  "tokenize_words text = findall word_pattern text"

text \<open>\<^verbatim>\<open>[.!?]+\<close>\<close>

definition is_terminator :: "char \<Rightarrow> bool" where
  "is_terminator c = (c \<in> set ''.!?'')"

definition count_sentences :: "string \<Rightarrow> int" where
  "count_sentences text =
     (let n = int (length (findall (Plus is_terminator) text)) in if n = 0 then 1 else n)"

definition vowels :: string where
  "vowels = ''aeiouy''"

text \<open>One round of the loop over the characters: the count and \<^verbatim>\<open>prev_vowel\<close>.\<close>

fun syllable_step :: "int \<times> bool \<Rightarrow> char \<Rightarrow> int \<times> bool" where
  "syllable_step (count, prev_vowel) c =
     (let is_vowel = (c \<in> set vowels)
      in (if is_vowel \<and> \<not> prev_vowel then count + 1 else count, is_vowel))"

definition syllables_in_word :: "string \<Rightarrow> error + int" where
  "syllables_in_word w =
     (let word = lower w;
          count = fst (foldl syllable_step (0, False) word);
          count = (if endswith word ''e'' \<and> count > 1 then count - 1 else count)
      in bind_err
           (if endswith word ''le'' \<and> length word > 2
            then bind_err (str_index word (- 3)) (\<lambda>c. Inr (c \<notin> set vowels))
            else Inr False)
           (\<lambda>le. let count = (if le then count + 1 else count) in Inr (max 1 count)))"

text \<open>\<^verbatim>\<open>sum(self._syllables_in_word(w) for w in words)\<close>\<close>

fun sum_syllables :: "string list \<Rightarrow> error + int" where
  "sum_syllables [] = Inr 0"
| "sum_syllables (w # ws) =
     bind_err (syllables_in_word w) (\<lambda>n. bind_err (sum_syllables ws) (\<lambda>m. Inr (n + m)))"

text \<open>\<^verbatim>\<open>\b{re.escape(phrase)}\b\<close>\<close>

definition phrase_pattern :: "string \<Rightarrow> regex" where
  "phrase_pattern phrase = Seq WordB (Seq (Lit phrase) WordB)"

definition count_matches :: "string \<Rightarrow> string list \<Rightarrow> int" where
  "count_matches text word_list =
     foldl (\<lambda>count phrase.
              if CHR '' '' \<in> set phrase then count + str_count text phrase
              else count + int (length (findall (phrase_pattern phrase) text)))
       0 word_list"

definition count_imperatives :: "string \<Rightarrow> int" where
  "count_imperatives text =
     foldl (\<lambda>count sent.
              case py_split (lower (strip sent)) of
                [] \<Rightarrow> count
              | w # _ \<Rightarrow> if w \<in> set imperative_starters then count + 1 else count)
       0 (re_split (Plus is_terminator) text)"

text \<open>\<^verbatim>\<open>\b\w+'\w+\b\<close>\<close>

definition contraction_pattern :: regex where
  "contraction_pattern =
     Seq WordB (Seq (Plus is_word_char) (Seq (Lit apostrophe) (Seq (Plus is_word_char) WordB)))"

text \<open>
  \<^verbatim>\<open>LinguisticExtractor.extract\<close> (the name \<open>extract\<close> is a command of Isabelle).
\<close>

definition extract_features :: "LinguisticExtractor \<Rightarrow> string \<Rightarrow> error + LinguisticFeatures" where
  "extract_features self text =
     (if text = [] \<or> strip text = [] then Inr default_features
      else
        let f = default_features;
            f = f\<lparr>char_count := int (length text)\<rparr>;
            words = tokenize_words text;
            f = f\<lparr>word_count := int (length words)\<rparr>;
            sentences = count_sentences text;
            f = f\<lparr>sentence_count := max sentences 1\<rparr>
        in
        if word_count f = 0 then Inr f
        else
          let word_lengths = map (\<lambda>w. int (length w)) words in
          bind_err (if word_lengths \<noteq> [] then np_mean word_lengths else Inr 0.0) (\<lambda>m.
          let f = f\<lparr>avg_word_length := m\<rparr> in
          bind_err (py_truediv (word_count f) (sentence_count f)) (\<lambda>q.
          let f = f\<lparr>avg_sentence_length := q\<rparr> in
          bind_err (py_truediv
                      (int (length (filter (\<lambda>l. l > long_word_threshold self) word_lengths)))
                      (word_count f)) (\<lambda>q.
          let f = f\<lparr>long_word_ratio := q\<rparr> in
          bind_err (sum_syllables words) (\<lambda>syllables.
          bind_err
            (if word_count f > 0 \<and> sentence_count f > 0
             then bind_err (py_truediv (word_count f) (sentence_count f)) (\<lambda>a.
                  bind_err (py_truediv syllables (word_count f)) (\<lambda>b.
                  let g = f\<lparr>reading_grade_level := 0.39 * a + 11.8 * b - 15.59\<rparr>
                  in Inr (g\<lparr>reading_grade_level := max 0.0 (reading_grade_level g)\<rparr>)))
             else Inr f) (\<lambda>f.
          let exclamations = str_count text ''!'';
              questions = str_count text ''?''
          in
          bind_err (py_truediv exclamations (sentence_count f)) (\<lambda>q.
          let f = f\<lparr>exclamation_ratio := q\<rparr> in
          bind_err (py_truediv questions (sentence_count f)) (\<lambda>q.
          let f = f\<lparr>question_ratio := q\<rparr>;
              caps_words = filter (\<lambda>w. isupper w \<and> int (length w) \<ge> min_caps_word_length self) words;
              f = f\<lparr>caps_word_count := int (length caps_words)\<rparr>
          in
          bind_err (py_truediv (caps_word_count f) (word_count f)) (\<lambda>q.
          let f = f\<lparr>caps_ratio := q\<rparr>;
              text_lower = lower text;
              f = f\<lparr>hedge_count := count_matches text_lower HEDGE_WORDS\<rparr>
          in
          bind_err (py_truediv (hedge_count f) (sentence_count f)) (\<lambda>q.
          let f = f\<lparr>hedge_density := q\<rparr>;
              f = f\<lparr>certainty_count := count_matches text_lower CERTAINTY_MARKERS\<rparr>;
              f = f\<lparr>politeness_count := count_matches text_lower POLITENESS_MARKERS\<rparr>;
              f = f\<lparr>urgency_word_count := count_matches text_lower URGENCY_WORDS\<rparr>;
              contractions = int (length (findall contraction_pattern text_lower))
          in
          bind_err (py_truediv contractions (word_count f)) (\<lambda>q.
          let f = f\<lparr>contraction_ratio := q\<rparr>;
              words_lower = map lower words;
              first_person_count =
                int (length (filter (\<lambda>w. w \<in> set FIRST_PERSON) words_lower))
          in
          bind_err (py_truediv first_person_count (word_count f)) (\<lambda>q.
          let f = f\<lparr>first_person_ratio := q\<rparr>;
              f = f\<lparr>imperative_count := count_imperatives text\<rparr>;
              filler_count = count_matches text_lower FILLER_WORDS
          in
          bind_err (py_truediv filler_count (word_count f)) (\<lambda>q.
          let f = f\<lparr>filler_ratio := q\<rparr>;
              f = f\<lparr>negative_emotion_count := count_matches text_lower NEGATIVE_EMOTION_WORDS\<rparr>
          in
          bind_err (py_truediv (negative_emotion_count f) (sentence_count f)) (\<lambda>q.
          let f = f\<lparr>negative_emotion_density := q\<rparr>;
              f = f\<lparr>absolutist_count := count_matches text_lower ABSOLUTIST_WORDS\<rparr>
          in
          bind_err (py_truediv (absolutist_count f) (sentence_count f)) (\<lambda>q.
          let f = f\<lparr>absolutist_density := q\<rparr>
          in Inr f)))))))))))))))"

subsection \<open>Reference definitions\<close>

text \<open>
  The syllable estimate as the specification words it: the maximal runs of vowels in
  the lower-cased word (a run starts at a vowel that no vowel precedes), less one for
  a final \<open>e\<close> when there is more than one run, plus one for a final \<open>le\<close> behind a
  character that is not a vowel in a word longer than two, and at least one.
\<close>


definition is_vowel :: "char \<Rightarrow> bool" where
  "is_vowel c = (c = CHR ''a'' \<or> c = CHR ''e'' \<or> c = CHR ''i'' \<or> c = CHR ''o'' \<or> c = CHR ''u'' \<or> c = CHR ''y'')"

definition vowel_runs :: "string \<Rightarrow> nat" where
  "vowel_runs w =
     length (filter (\<lambda>i. is_vowel (w ! i) \<and> (i = 0 \<or> \<not> is_vowel (w ! (i - 1)))) [0 ..< length w])"

definition syllables_reference :: "string \<Rightarrow> int" where
  "syllables_reference w =
     (let lw = lower w;
          n = length lw;
          runs = int (vowel_runs lw);
          silent_e = (if n \<ge> 1 \<and> lw ! (n - 1) = CHR ''e'' \<and> runs > 1 then 1 else 0);
          syllabic_le = (if n > 2 \<and> lw ! (n - 2) = CHR ''l'' \<and> lw ! (n - 1) = CHR ''e''
                            \<and> \<not> is_vowel (lw ! (n - 3)) then 1 else 0)
      in max 1 (runs - silent_e + syllabic_le))"

text \<open>A record whose fields are all non-negative.\<close>
definition nonneg_fields :: "LinguisticFeatures \<Rightarrow> bool" where
  "nonneg_fields f =
     (0 \<le> char_count f \<and> 0 \<le> word_count f \<and> 0 \<le> sentence_count f
      \<and> 0 \<le> avg_word_length f \<and> 0 \<le> avg_sentence_length f \<and> 0 \<le> long_word_ratio f
      \<and> 0 \<le> reading_grade_level f \<and> 0 \<le> exclamation_ratio f \<and> 0 \<le> question_ratio f
      \<and> 0 \<le> caps_word_count f \<and> 0 \<le> caps_ratio f \<and> 0 \<le> hedge_count f
      \<and> 0 \<le> hedge_density f \<and> 0 \<le> certainty_count f \<and> 0 \<le> contraction_ratio f
      \<and> 0 \<le> politeness_count f \<and> 0 \<le> first_person_ratio f \<and> 0 \<le> urgency_word_count f
      \<and> 0 \<le> imperative_count f \<and> 0 \<le> filler_ratio f \<and> 0 \<le> negative_emotion_count f
      \<and> 0 \<le> negative_emotion_density f \<and> 0 \<le> absolutist_count f
      \<and> 0 \<le> absolutist_density f)"

text \<open>
  The second text is the first one with exclamation marks added and nothing else
  changed: reading both from the left, a character of the second text is the next
  character of the first, or an added mark.
\<close>

fun adds_exclamations :: "string \<Rightarrow> string \<Rightarrow> bool" where
  "adds_exclamations [] ys = (filter (\<lambda>c. c \<noteq> CHR ''!'') ys = [])"
| "adds_exclamations (x # xs) [] = False"
| "adds_exclamations (x # xs) (y # ys) =
     (if x = y then adds_exclamations xs ys
      else y = CHR ''!'' \<and> adds_exclamations (x # xs) ys)"

text \<open>
  Occurrences of a phrase in a text, by position. \<open>occurs_at\<close>: the phrase stands at
  position \<open>i\<close>. \<open>boundary_at\<close>: exactly one of the characters before and at position
  \<open>i\<close> is a word character. \<open>occurrences\<close> counts every position where a phrase
  stands; \<open>disjoint_occurrences\<close> reads from the left and resumes behind each
  occurrence it counts.
\<close>

definition occurs_at :: "string \<Rightarrow> string \<Rightarrow> nat \<Rightarrow> bool" where
  "occurs_at text phrase i =
     (i + length phrase \<le> length text \<and> take (length phrase) (drop i text) = phrase)"

definition boundary_at :: "string \<Rightarrow> nat \<Rightarrow> bool" where
  "boundary_at text i =
     ((0 < i \<and> i \<le> length text \<and> is_word_char (text ! (i - 1)))
      \<noteq> (i < length text \<and> is_word_char (text ! i)))"

definition whole_word_at :: "string \<Rightarrow> string \<Rightarrow> nat \<Rightarrow> bool" where
  "whole_word_at text phrase i =
     (occurs_at text phrase i \<and> boundary_at text i \<and> boundary_at text (i + length phrase))"

definition occurrences :: "(nat \<Rightarrow> bool) \<Rightarrow> nat \<Rightarrow> nat" where
  "occurrences occ n = length (filter occ [0 ..< Suc n])"

function disjoint_occurrences :: "(nat \<Rightarrow> bool) \<Rightarrow> nat \<Rightarrow> nat \<Rightarrow> nat \<Rightarrow> nat" where
  "disjoint_occurrences occ width n i =
     (if n < i then 0
      else if occ i then 1 + disjoint_occurrences occ width n (i + max 1 width)
      else disjoint_occurrences occ width n (i + 1))"
  by pat_completeness auto
termination
  by (relation "measure (\<lambda>(occ, width, n, i). Suc n - i)") auto

declare disjoint_occurrences.simps [simp del]

definition matches_as_stated :: "string \<Rightarrow> string list \<Rightarrow> int" where
  "matches_as_stated text word_list =
     sum_list (map (\<lambda>phrase.
        int (if CHR '' '' \<in> set phrase
             then occurrences (occurs_at text phrase) (length text)
             else occurrences (whole_word_at text phrase) (length text))) word_list)"

definition phrase_matches :: "string \<Rightarrow> string \<Rightarrow> nat" where
  "phrase_matches text phrase =
     (if CHR '' '' \<in> set phrase
      then disjoint_occurrences (occurs_at text phrase) (length phrase) (length text) 0
      else disjoint_occurrences (whole_word_at text phrase) (length phrase) (length text) 0)"

text \<open>The matcher state at position \<open>i\<close> of a text.\<close>

definition state_at :: "string \<Rightarrow> nat \<Rightarrow> mstate" where
  "state_at t i = (if i = 0 then None else Some (t ! (i - 1)), drop i t)"

section \<open>Properties\<close>

subsection \<open>The syllable estimator\<close>

lemma in_vowels: "(c \<in> set vowels) = is_vowel c"
  by (auto simp: vowels_def is_vowel_def)

lemma vowel_runs_snoc:
  "vowel_runs (xs @ [x]) =
     vowel_runs xs + (if is_vowel x \<and> (xs = [] \<or> \<not> is_vowel (last xs)) then 1 else 0)"
proof -
  have same: "filter (\<lambda>i. is_vowel ((xs @ [x]) ! i) \<and> (i = 0 \<or> \<not> is_vowel ((xs @ [x]) ! (i - 1))))
                [0 ..< length xs]
            = filter (\<lambda>i. is_vowel (xs ! i) \<and> (i = 0 \<or> \<not> is_vowel (xs ! (i - 1)))) [0 ..< length xs]"
    by (rule filter_cong) (auto simp: nth_append)
  have at_end: "xs \<noteq> [] \<Longrightarrow> (xs @ [x]) ! (length xs - 1) = last xs"
    by (simp add: nth_append last_conv_nth)
  show ?thesis
    using same at_end by (auto simp: vowel_runs_def)
qed

lemma foldl_syllable_step:
  "foldl syllable_step (0, False) w = (int (vowel_runs w), w \<noteq> [] \<and> is_vowel (last w))"
proof (induction w rule: rev_induct)
  case Nil
  show ?case by (simp add: vowel_runs_def)
next
  case (snoc x xs)
  then show ?case
    by (auto simp: vowel_runs_snoc in_vowels Let_def)
qed

lemma endswith_e: "endswith s ''e'' = (length s \<ge> 1 \<and> s ! (length s - 1) = CHR ''e'')"
proof (cases s rule: rev_cases)
  case Nil
  then show ?thesis by (simp add: endswith_def)
next
  case (snoc ys y)
  then show ?thesis by (auto simp: endswith_def)
qed

lemma endswith_le:
  "endswith s ''le'' = (length s \<ge> 2 \<and> s ! (length s - 2) = CHR ''l'' \<and> s ! (length s - 1) = CHR ''e'')"
proof (cases s rule: rev_cases)
  case Nil
  then show ?thesis by (simp add: endswith_def)
next
  case (snoc ys y)
  note outer = snoc
  show ?thesis
  proof (cases ys rule: rev_cases)
    case Nil
    with outer show ?thesis by (simp add: endswith_def suffix_Cons)
  next
    case (snoc zs z)
    with outer have s: "s = zs @ [z, y]" by simp
    have "suffix ''le'' (zs @ [z, y]) = ([z, y] = ''le'')"
      by (auto simp: suffix_def)
    with s show ?thesis
      by (auto simp: endswith_def nth_append)
  qed
qed

lemma str_index_minus3:
  "length s > 2 \<Longrightarrow> str_index s (- 3) = Inr (s ! (length s - 3))"
  by (simp add: str_index_def Let_def nat_diff_distrib')

lemma syllables_in_word_eq: "syllables_in_word w = Inr (syllables_reference w)"
  by (auto simp: syllables_in_word_def syllables_reference_def Let_def bind_err_def
      foldl_syllable_step endswith_e endswith_le str_index_minus3 in_vowels)

lemma syllables_reference_ge1: "1 \<le> syllables_reference w"
  by (simp add: syllables_reference_def Let_def)

subsection \<open>The three exits of the extractor\<close>

lemma strip_empty_iff: "(strip s = []) = (\<forall>c \<in> set s. is_space c)"
proof
  assume "strip s = []"
  then have all: "\<forall>c \<in> set (dropWhile is_space s). is_space c"
    by (simp add: strip_def)
  have "dropWhile is_space s = []"
  proof (rule ccontr)
    assume ne: "dropWhile is_space s \<noteq> []"
    then have "\<not> is_space (hd (dropWhile is_space s))"
      by (rule hd_dropWhile)
    moreover from ne have "hd (dropWhile is_space s) \<in> set (dropWhile is_space s)"
      by simp
    ultimately show False using all by blast
  qed
  then show "\<forall>c \<in> set s. is_space c"
    by simp
next
  assume "\<forall>c \<in> set s. is_space c"
  then have "dropWhile is_space s = []"
    by simp
  then show "strip s = []"
    by (simp add: strip_def del: dropWhile_eq_Nil_conv)
qed

lemma sum_syllables_eq: "sum_syllables ws = Inr (sum_list (map syllables_reference ws))"
  by (induction ws) (simp_all add: bind_err_def syllables_in_word_eq)

lemma count_sentences_ge1: "1 \<le> count_sentences text"
  by (cases "findall (Plus is_terminator) text") (simp_all add: count_sentences_def Let_def)

lemma extract_features_blank:
  "text = [] \<or> strip text = [] \<Longrightarrow> extract_features self text = Inr default_features"
  by (simp add: extract_features_def)

lemma extract_features_no_words:
  assumes "strip text \<noteq> []" and "tokenize_words text = []"
  shows "extract_features self text =
           Inr (default_features\<lparr>char_count := int (length text),
                                 sentence_count := max (count_sentences text) 1\<rparr>)"
proof -
  from assms(1) have "text \<noteq> []"
    by (auto simp: strip_def)
  with assms show ?thesis
    by (simp add: extract_features_def Let_def default_features_def)
qed

lemma extract_features_words:
  fixes self :: LinguisticExtractor and t :: string
  defines "words \<equiv> tokenize_words t"
    and "wc \<equiv> int (length (tokenize_words t))"
    and "sc \<equiv> max (count_sentences t) 1"
    and "lt \<equiv> lower t"
  assumes "strip t \<noteq> []" and "tokenize_words t \<noteq> []"
  shows "extract_features self t =
     Inr \<lparr>char_count = int (length t),
          word_count = wc,
          sentence_count = sc,
          avg_word_length =
            of_int (sum_list (map (\<lambda>w. int (length w)) words)) / of_int (int (length words)),
          avg_sentence_length = of_int wc / of_int sc,
          long_word_ratio =
            of_int (int (length (filter (\<lambda>l. l > long_word_threshold self)
                                   (map (\<lambda>w. int (length w)) words)))) / of_int wc,
          reading_grade_level =
            max 0 (0.39 * (of_int wc / of_int sc)
                   + 11.8 * (of_int (sum_list (map syllables_reference words)) / of_int wc)
                   - 15.59),
          exclamation_ratio = of_int (str_count t ''!'') / of_int sc,
          question_ratio = of_int (str_count t ''?'') / of_int sc,
          caps_word_count =
            int (length (filter (\<lambda>w. isupper w \<and> int (length w) \<ge> min_caps_word_length self)
                           words)),
          caps_ratio =
            of_int (int (length (filter (\<lambda>w. isupper w \<and> int (length w) \<ge> min_caps_word_length self)
                           words))) / of_int wc,
          hedge_count = count_matches lt HEDGE_WORDS,
          hedge_density = of_int (count_matches lt HEDGE_WORDS) / of_int sc,
          certainty_count = count_matches lt CERTAINTY_MARKERS,
          contraction_ratio =
            of_int (int (length (findall contraction_pattern lt))) / of_int wc,
          politeness_count = count_matches lt POLITENESS_MARKERS,
          first_person_ratio =
            of_int (int (length (filter (\<lambda>w. w \<in> set FIRST_PERSON) (map lower words))))
              / of_int wc,
          urgency_word_count = count_matches lt URGENCY_WORDS,
          imperative_count = count_imperatives t,
          filler_ratio = of_int (count_matches lt FILLER_WORDS) / of_int wc,
          negative_emotion_count = count_matches lt NEGATIVE_EMOTION_WORDS,
          negative_emotion_density =
            of_int (count_matches lt NEGATIVE_EMOTION_WORDS) / of_int sc,
          absolutist_count = count_matches lt ABSOLUTIST_WORDS,
          absolutist_density = of_int (count_matches lt ABSOLUTIST_WORDS) / of_int sc\<rparr>"
proof -
  from assms have ne: "t \<noteq> []"
    by (auto simp: strip_def)
  from assms have wc: "wc > 0" "wc \<noteq> 0" "words \<noteq> []" "tokenize_words t \<noteq> []"
    by (simp_all add: wc_def words_def)
  have sc: "sc > 0" "sc \<noteq> 0" "max (count_sentences t) 1 \<noteq> 0"
     "0 < max (count_sentences t) 1"
    by (simp_all add: sc_def)
  show ?thesis
    using ne wc sc assms(5)
    by (simp add: extract_features_def Let_def default_features_def bind_err_def
        py_truediv_def np_mean_def sum_syllables_eq wc_def sc_def words_def lt_def)
qed

subsection \<open>The composite scores\<close>

lemma uncertainty_score_bounds:
  assumes "0 \<le> hedge_density f" and "0 \<le> question_ratio f"
  shows "0 \<le> uncertainty_score f" and "uncertainty_score f \<le> 1"
proof -
  let ?h = "min (hedge_density f * 2) 1" and ?q = "min (question_ratio f * 3) 1"
  have h: "0 \<le> ?h" "?h \<le> 1" and q: "0 \<le> ?q" "?q \<le> 1"
    using assms by simp_all
  have eq: "uncertainty_score f = ?h * (6/10) + ?q * (4/10)"
    by (simp add: uncertainty_score_def Let_def)
  from h q show "0 \<le> uncertainty_score f" unfolding eq by simp
  from h q show "uncertainty_score f \<le> 1" unfolding eq by linarith
qed

lemma uncertainty_score_v2_bounds:
  assumes "0 \<le> hedge_density f" and "0 \<le> question_ratio f"
    and "0 \<le> negative_emotion_density f" and "0 \<le> first_person_ratio f"
  shows "0 \<le> uncertainty_score_v2 f" and "uncertainty_score_v2 f \<le> 1"
proof -
  let ?b = "uncertainty_score f"
  let ?n = "min (negative_emotion_density f * 2) 1" and ?p = "min (first_person_ratio f * 2) 1"
  have b: "0 \<le> ?b" "?b \<le> 1"
    using assms uncertainty_score_bounds by simp_all
  have n: "0 \<le> ?n" "?n \<le> 1" and p: "0 \<le> ?p" "?p \<le> 1"
    using assms by simp_all
  have eq: "uncertainty_score_v2 f = ?b * (4/10) + ?n * (4/10) + ?p * (2/10)"
    by (simp add: uncertainty_score_v2_def Let_def)
  from b n p show "0 \<le> uncertainty_score_v2 f" unfolding eq by simp
  from b n p show "uncertainty_score_v2 f \<le> 1" unfolding eq by linarith
qed

lemma emotional_intensity_bounds:
  assumes "0 \<le> exclamation_ratio f" and "0 \<le> caps_ratio f"
  shows "0 \<le> emotional_intensity f" and "emotional_intensity f \<le> 1"
proof -
  let ?e = "min (exclamation_ratio f * 5) 1" and ?c = "min (caps_ratio f * 3) 1"
  have e: "0 \<le> ?e" "?e \<le> 1" and c: "0 \<le> ?c" "?c \<le> 1"
    using assms by simp_all
  have eq: "emotional_intensity f = ?e * (5/10) + ?c * (5/10)"
    by (simp add: emotional_intensity_def Let_def)
  from e c show "0 \<le> emotional_intensity f" unfolding eq by simp
  from e c show "emotional_intensity f \<le> 1" unfolding eq by linarith
qed

lemma formality_score_bounds: "0 \<le> formality_score f" "formality_score f \<le> 1"
  by (simp_all add: formality_score_def Let_def)

lemma complexity_score_bounds:
  assumes "0 \<le> reading_grade_level f" and "0 \<le> avg_sentence_length f"
    and "0 \<le> long_word_ratio f"
  shows "0 \<le> complexity_score f"
    and "complexity_score f \<le> 7/10 + long_word_ratio f * (3/10)"
proof -
  let ?g = "min (reading_grade_level f / 12) 1" and ?s = "min (avg_sentence_length f / 25) 1"
  have g: "0 \<le> ?g" "?g \<le> 1" and s: "0 \<le> ?s" "?s \<le> 1"
    using assms by simp_all
  have eq: "complexity_score f = ?g * (4/10) + ?s * (3/10) + long_word_ratio f * (3/10)"
    by (simp add: complexity_score_def Let_def)
  from g s assms(3) show "0 \<le> complexity_score f" unfolding eq by simp
  from g s show "complexity_score f \<le> 7/10 + long_word_ratio f * (3/10)"
    unfolding eq by linarith
qed

subsection \<open>Counts and ratios\<close>

lemma str_count_nonneg: "0 \<le> str_count s sub"
proof (induction s sub rule: str_count.induct)
  case (1 s sub)
  show ?case
  proof (cases "sub = []")
    case True
    then show ?thesis by (subst str_count.simps) simp
  next
    case ne: False
    show ?thesis
    proof (cases "s = []")
      case True
      with ne show ?thesis by (subst str_count.simps) simp
    next
      case sne: False
      show ?thesis
      proof (cases "prefix sub s")
        case True
        with ne sne "1.IH"(1) show ?thesis by (subst str_count.simps) simp
      next
        case False
        with ne sne "1.IH"(2) show ?thesis by (subst str_count.simps) simp
      qed
    qed
  qed
qed

lemma count_matches_foldl_nonneg:
  "0 \<le> a \<Longrightarrow>
   0 \<le> foldl (\<lambda>count phrase.
              if CHR '' '' \<in> set phrase then count + str_count text phrase
              else count + int (length (findall (phrase_pattern phrase) text))) a ws"
proof (induction ws arbitrary: a)
  case Nil
  then show ?case by simp
next
  case (Cons w ws)
  have "0 \<le> (if CHR '' '' \<in> set w then a + str_count text w
               else a + int (length (findall (phrase_pattern w) text)))"
    using Cons.prems str_count_nonneg [of "text" w] by simp
  from Cons.IH [OF this] show ?case by simp
qed

lemma count_matches_nonneg: "0 \<le> count_matches text ws"
  unfolding count_matches_def by (rule count_matches_foldl_nonneg) simp

lemma ratio_bounds:
  fixes a b :: int
  assumes "0 \<le> a" and "a \<le> b" and "0 < b"
  shows "0 \<le> (of_int a / of_int b :: rat)" and "(of_int a / of_int b :: rat) \<le> 1"
  using assms by simp_all

lemma ratio_nonneg:
  fixes a b :: int
  assumes "0 \<le> a" and "0 < b"
  shows "0 \<le> (of_int a / of_int b :: rat)"
  using assms by simp

text \<open>A text of digits and punctuation: no word, one sentence.\<close>

lemma extract_features_digits:
  "extract_features default_extractor ''42!''
     = Inr (default_features\<lparr>char_count := 3, sentence_count := 1\<rparr>)"
proof -
  have "strip ''42!'' \<noteq> []" and "tokenize_words ''42!'' = []"
    and "count_sentences ''42!'' = 1"
    by code_simp+
  then show ?thesis
    by (simp add: extract_features_no_words)
qed

subsection \<open>Fields of the extracted record\<close>

lemma extract_features_returns: "\<exists>f. extract_features self text = Inr f"
proof (cases "strip text = []")
  case True
  then show ?thesis by (simp add: extract_features_blank)
next
  case False
  then show ?thesis
    by (cases "tokenize_words text = []")
       (simp_all add: extract_features_no_words extract_features_words)
qed

lemma extract_features_wordless_fields:
  assumes "strip X = [] \<or> tokenize_words X = []" and "extract_features self X = Inr f"
  shows "exclamation_ratio f = 0" and "caps_ratio f = 0" and "first_person_ratio f = 0"
proof -
  have "f = default_features
        \<or> f = default_features\<lparr>char_count := int (length X),
                               sentence_count := max (count_sentences X) 1\<rparr>"
  proof (cases "strip X = []")
    case True
    with assms(2) show ?thesis by (simp add: extract_features_blank)
  next
    case False
    with assms show ?thesis by (simp add: extract_features_no_words)
  qed
  then show "exclamation_ratio f = 0" and "caps_ratio f = 0" and "first_person_ratio f = 0"
    by (auto simp: default_features_def)
qed

lemma extract_features_words_fields:
  assumes "strip X \<noteq> []" and "tokenize_words X \<noteq> []" and "extract_features self X = Inr f"
  shows "word_count f = int (length (tokenize_words X))"
    and "sentence_count f = max (count_sentences X) 1"
    and "exclamation_ratio f = of_int (str_count X ''!'') / of_int (max (count_sentences X) 1)"
    and "caps_ratio f =
           of_int (int (length (filter
              (\<lambda>w. isupper w \<and> int (length w) \<ge> min_caps_word_length self)
              (tokenize_words X)))) / of_int (int (length (tokenize_words X)))"
    and "first_person_ratio f =
           of_int (int (length (filter (\<lambda>w. w \<in> set FIRST_PERSON)
              (map lower (tokenize_words X))))) / of_int (int (length (tokenize_words X)))"
    and "filler_ratio f =
           of_int (count_matches (lower X) FILLER_WORDS) / of_int (int (length (tokenize_words X)))"
    and "contraction_ratio f =
           of_int (int (length (findall contraction_pattern (lower X))))
             / of_int (int (length (tokenize_words X)))"
proof -
  note eq = extract_features_words [OF assms(1) assms(2), of self]
  have f: "f = projr (extract_features self X)"
    using assms(3) by simp
  show "word_count f = int (length (tokenize_words X))"
    unfolding f eq by simp
  show "sentence_count f = max (count_sentences X) 1"
    unfolding f eq by simp
  show "exclamation_ratio f
      = of_int (str_count X ''!'') / of_int (max (count_sentences X) 1)"
    unfolding f eq by simp
  show "caps_ratio f =
           of_int (int (length (filter
              (\<lambda>w. isupper w \<and> int (length w) \<ge> min_caps_word_length self)
              (tokenize_words X)))) / of_int (int (length (tokenize_words X)))"
    unfolding f eq by simp
  show "first_person_ratio f =
           of_int (int (length (filter (\<lambda>w. w \<in> set FIRST_PERSON)
              (map lower (tokenize_words X))))) / of_int (int (length (tokenize_words X)))"
    unfolding f eq by simp
  show "filler_ratio f =
           of_int (count_matches (lower X) FILLER_WORDS) / of_int (int (length (tokenize_words X)))"
    unfolding f eq by simp
  show "contraction_ratio f =
           of_int (int (length (findall contraction_pattern (lower X))))
             / of_int (int (length (tokenize_words X)))"
    unfolding f eq by simp
qed

subsection \<open>Exclamation marks\<close>

lemma str_count_char: "str_count s [c] = int (length (filter (\<lambda>x. x = c) s))"
proof (induction s)
  case Nil
  show ?case by (subst str_count.simps) simp
next
  case (Cons x xs)
  then show ?case by (subst str_count.simps) auto
qed

lemma adds_exclamations_count:
  "adds_exclamations xs ys \<Longrightarrow>
   length (filter (\<lambda>x. x = CHR ''!'') xs) \<le> length (filter (\<lambda>x. x = CHR ''!'') ys)"
proof (induction xs ys rule: adds_exclamations.induct)
  case (1 ys)
  show ?case by simp
next
  case (2 x xs)
  then show ?case by simp
next
  case (3 x xs y ys)
  show ?case
  proof (cases "x = y")
    case True
    with "3.prems" have "adds_exclamations xs ys" by simp
    with "3.IH"(1) True
    have "length (filter (\<lambda>x. x = CHR ''!'') xs) \<le> length (filter (\<lambda>x. x = CHR ''!'') ys)"
      by blast
    with True show ?thesis by simp
  next
    case False
    with "3.prems" have y: "y = CHR ''!''" and rest: "adds_exclamations (x # xs) ys"
      by simp_all
    from "3.IH"(2) [OF False rest] y show ?thesis by simp
  qed
qed

lemma adds_exclamations_set: "adds_exclamations xs ys \<Longrightarrow> set xs \<subseteq> set ys"
proof (induction xs ys rule: adds_exclamations.induct)
  case (1 ys)
  show ?case by simp
next
  case (2 x xs)
  then show ?case by simp
next
  case (3 x xs y ys)
  show ?case
  proof (cases "x = y")
    case True
    with "3.prems" have "adds_exclamations xs ys" by simp
    with "3.IH"(1) True have "set xs \<subseteq> set ys" by blast
    with True show ?thesis by auto
  next
    case False
    with "3.prems" have rest: "adds_exclamations (x # xs) ys"
      by simp
    from "3.IH"(2) [OF False rest] show ?thesis by auto
  qed
qed

lemma emotional_intensity_mono:
  assumes "exclamation_ratio f \<le> exclamation_ratio g" and "caps_ratio f \<le> caps_ratio g"
  shows "emotional_intensity f \<le> emotional_intensity g"
proof -
  have "min (exclamation_ratio f * 5) 1 \<le> min (exclamation_ratio g * 5) 1"
    using assms(1) by (simp add: min_def)
  moreover have "min (caps_ratio f * 3) 1 \<le> min (caps_ratio g * 3) 1"
    using assms(2) by (simp add: min_def)
  ultimately show ?thesis
    by (simp add: emotional_intensity_def Let_def)
qed

lemma exclamation_caps_nonneg:
  assumes "extract_features self X = Inr f"
  shows "0 \<le> exclamation_ratio f" and "0 \<le> caps_ratio f"
proof -
  have "0 \<le> exclamation_ratio f \<and> 0 \<le> caps_ratio f"
  proof (cases "strip X = [] \<or> tokenize_words X = []")
    case True
    from extract_features_wordless_fields(1,2) [OF True assms] show ?thesis by simp
  next
    case False
    then have nb: "strip X \<noteq> []" "tokenize_words X \<noteq> []" by simp_all
    have "0 \<le> str_count X ''!''" by (rule str_count_nonneg)
    then show ?thesis
      unfolding extract_features_words_fields(3,4) [OF nb assms] by simp
  qed
  then show "0 \<le> exclamation_ratio f" and "0 \<le> caps_ratio f" by simp_all
qed

subsection \<open>First person and contractions\<close>

lemma first_person_no_apostrophe: "w \<in> set FIRST_PERSON \<Longrightarrow> CHR 0x27 \<notin> set w"
  by (auto simp: FIRST_PERSON_def)

lemma lower_char_apostrophe: "lower_char (CHR 0x27) = CHR 0x27"
  by (simp add: lower_char_def is_upper_char_def code_point_def)

lemma lower_keeps_apostrophe: "CHR 0x27 \<in> set w \<Longrightarrow> CHR 0x27 \<in> set (lower w)"
proof -
  assume "CHR 0x27 \<in> set w"
  then have "lower_char (CHR 0x27) \<in> lower_char ` set w"
    by (rule imageI)
  then show ?thesis
    by (simp add: lower_def lower_char_apostrophe)
qed

lemma contraction_not_in_first_person:
  "CHR 0x27 \<in> set w \<Longrightarrow> lower w \<notin> set FIRST_PERSON"
  using first_person_no_apostrophe lower_keeps_apostrophe by blast

subsection \<open>Counting the matches of a phrase\<close>

lemma foldl_add_sum:
  fixes g :: "'a \<Rightarrow> int"
  shows "foldl (\<lambda>count x. if c x then count + g x else count + h x) a xs
           = a + sum_list (map (\<lambda>x. if c x then g x else h x) xs)"
  by (induction xs arbitrary: a) simp_all

lemma count_matches_sum:
  "count_matches text ws =
     sum_list (map (\<lambda>p. if CHR '' '' \<in> set p then str_count text p
                         else int (length (findall (phrase_pattern p) text))) ws)"
  unfolding count_matches_def by (simp add: foldl_add_sum)

lemma prefix_occurs_at:
  assumes "i \<le> length t"
  shows "prefix p (drop i t) = occurs_at t p i"
proof
  assume "prefix p (drop i t)"
  then obtain zs where zs: "drop i t = p @ zs"
    by (auto simp: prefix_def)
  then have "length (drop i t) = length p + length zs"
    by simp
  with assms have "i + length p \<le> length t"
    by simp
  moreover from zs have "take (length p) (drop i t) = p"
    by simp
  ultimately show "occurs_at t p i"
    by (simp add: occurs_at_def)
next
  assume o: "occurs_at t p i"
  have "prefix (take (length p) (drop i t)) (drop i t)"
    by (rule take_is_prefix)
  with o show "prefix p (drop i t)"
    by (simp add: occurs_at_def)
qed

lemma disjoint_occurrences_end:
  "\<not> occ n \<Longrightarrow> disjoint_occurrences occ w n n = 0"
  by (subst disjoint_occurrences.simps, subst disjoint_occurrences.simps) simp

lemma disjoint_occurrences_hit:
  "i \<le> n \<Longrightarrow> occ i \<Longrightarrow>
   disjoint_occurrences occ w n i = 1 + disjoint_occurrences occ w n (i + max 1 w)"
  by (subst disjoint_occurrences.simps) simp

lemma disjoint_occurrences_miss:
  "i \<le> n \<Longrightarrow> \<not> occ i \<Longrightarrow>
   disjoint_occurrences occ w n i = disjoint_occurrences occ w n (i + 1)"
  by (subst disjoint_occurrences.simps) simp

lemma disjoint_occurrences_past:
  "n < i \<Longrightarrow> disjoint_occurrences occ w n i = 0"
  by (subst disjoint_occurrences.simps) simp

lemma str_count_disjoint:
  assumes "p \<noteq> []"
  shows "i \<le> length t \<Longrightarrow>
         str_count (drop i t) p
           = int (disjoint_occurrences (occurs_at t p) (length p) (length t) i)"
proof (induction "length t - i" arbitrary: i rule: less_induct)
  case less
  let ?d = "disjoint_occurrences (occurs_at t p) (length p) (length t)"
  show ?case
  proof (cases "i = length t")
    case True
    have "\<not> occurs_at t p (length t)"
      using assms by (simp add: occurs_at_def)
    then have "?d (length t) = 0"
      by (rule disjoint_occurrences_end)
    moreover have "str_count [] p = 0"
      using assms by (subst str_count.simps) simp
    ultimately show ?thesis
      using True by simp
  next
    case False
    with less.prems have lt: "i < length t" by simp
    then have ne: "drop i t \<noteq> []" by simp
    show ?thesis
    proof (cases "occurs_at t p i")
      case True
      then have pre: "prefix p (drop i t)"
        using less.prems by (simp add: prefix_occurs_at)
      from True have bound: "i + length p \<le> length t"
        by (simp add: occurs_at_def)
      from assms have pos: "0 < length p" by simp
      have mx: "max 1 (length p) = length p"
        using assms by (cases p) simp_all
      have "str_count (drop i t) p = 1 + str_count (drop (i + length p) t) p"
        using assms ne pre by (subst str_count.simps) (simp add: add.commute)
      also have "str_count (drop (i + length p) t) p = int (?d (i + length p))"
      proof (rule less.hyps)
        show "length t - (i + length p) < length t - i"
          using bound pos lt by arith
        show "i + length p \<le> length t"
          by (rule bound)
      qed
      also have "1 + int (?d (i + length p)) = int (?d i)"
        using disjoint_occurrences_hit [where i = i and n = "length t" and occ = "occurs_at t p"
          and w = "length p", OF less.prems True] mx by simp
      finally show ?thesis .
    next
      case False
      then have npre: "\<not> prefix p (drop i t)"
        using less.prems by (simp add: prefix_occurs_at)
      have "str_count (drop i t) p = str_count (drop (Suc i) t) p"
        using assms ne npre by (subst str_count.simps) (simp add: drop_Suc tl_drop)
      also have "\<dots> = int (?d (Suc i))"
      proof (rule less.hyps)
        show "length t - Suc i < length t - i"
          using lt by arith
        show "Suc i \<le> length t"
          using lt by simp
      qed
      also have "\<dots> = int (?d i)"
        using disjoint_occurrences_miss [where i = i and n = "length t" and occ = "occurs_at t p"
          and w = "length p", OF less.prems False] by simp
      finally show ?thesis .
    qed
  qed
qed


lemma findall_from_unfold:
  "findall_from r adv st =
     (case first_match r adv st of
        Some st' \<Rightarrow>
          take (length (snd st) - length (snd st')) (snd st)
            # findall_from r (length (snd st') = length (snd st)) st'
      | None \<Rightarrow>
          (case snd st of [] \<Rightarrow> [] | c # cs \<Rightarrow> findall_from r False (Some c, cs)))"
  by (cases st) (simp add: findall_from.simps split: option.split)

lemma snd_state_at: "snd (state_at t i) = drop i t"
  by (simp add: state_at_def)

lemma state_at_next:
  "i < length t \<Longrightarrow> snd (state_at t i) = t ! i # drop (Suc i) t"
  "i < length t \<Longrightarrow> state_at t (Suc i) = (Some (t ! i), drop (Suc i) t)"
  "snd (state_at t (length t)) = []"
  by (simp_all add: state_at_def Cons_nth_drop_Suc)

lemma at_boundary_state_at:
  "i \<le> length t \<Longrightarrow> at_boundary (state_at t i) = boundary_at t i"
  by (auto simp: state_at_def boundary_at_def list.case_eq_if hd_drop_conv_nth)

lemma advance_state_at:
  "i + k \<le> length t \<Longrightarrow> advance k (state_at t i) = state_at t (i + k)"
proof (induction k arbitrary: i)
  case 0
  show ?case by simp
next
  case (Suc k)
  then have lt: "i < length t" by simp
  have "advance (Suc k) (state_at t i) = advance k (state_at t (Suc i))"
    using lt by (simp add: state_at_def Cons_nth_drop_Suc [symmetric])
  also have "\<dots> = state_at t (Suc i + k)"
    using Suc.prems by (intro Suc.IH) simp
  finally show ?case by simp
qed

lemma matches_phrase_pattern:
  "matches (phrase_pattern p) st =
     (if at_boundary st \<and> prefix p (snd st) \<and> at_boundary (advance (length p) st)
      then [advance (length p) st] else [])"
  by (cases st) (simp add: phrase_pattern_def del: at_boundary.simps)

lemma first_match_phrase_pattern:
  assumes "i \<le> length t"
  shows "first_match (phrase_pattern p) adv (state_at t i) =
           (if whole_word_at t p i \<and> (adv \<longrightarrow> p \<noteq> [])
            then Some (state_at t (i + length p)) else None)"
proof (cases "occurs_at t p i")
  case True
  then have bound: "i + length p \<le> length t"
    by (simp add: occurs_at_def)
  have pre: "prefix p (snd (state_at t i))"
    using True assms by (simp add: state_at_def prefix_occurs_at)
  have adv: "advance (length p) (state_at t i) = state_at t (i + length p)"
    using bound by (rule advance_state_at)
  have len: "length (snd (state_at t (i + length p))) < length (snd (state_at t i))
               \<longleftrightarrow> p \<noteq> []"
    using bound by (cases p) (auto simp: snd_state_at)
  show ?thesis
    using True assms bound pre len
    by (simp add: first_match_def matches_phrase_pattern adv at_boundary_state_at
        whole_word_at_def)
next
  case False
  then have "\<not> prefix p (snd (state_at t i))"
    using assms by (simp add: state_at_def prefix_occurs_at)
  with False show ?thesis
    by (simp add: first_match_def matches_phrase_pattern whole_word_at_def)
qed

lemma findall_phrase_disjoint:
  "i \<le> length t \<Longrightarrow>
   length (findall_from (phrase_pattern p) False (state_at t i))
     = disjoint_occurrences (whole_word_at t p) (length p) (length t) i"
proof (induction "length t - i" arbitrary: i rule: less_induct)
  case less
  let ?r = "phrase_pattern p"
  let ?d = "disjoint_occurrences (whole_word_at t p) (length p) (length t)"
  have step: "length (case snd (state_at t i) of [] \<Rightarrow> []
                      | c # cs \<Rightarrow> findall_from ?r False (Some c, cs)) = ?d (Suc i)"
  proof (cases "i = length t")
    case True
    then show ?thesis
      by (simp add: state_at_next(3) disjoint_occurrences_past)
  next
    case False
    with less.prems have lt: "i < length t" by simp
    have "length (findall_from ?r False (state_at t (Suc i))) = ?d (Suc i)"
    proof (rule less.hyps)
      show "length t - Suc i < length t - i"
        using lt by arith
      show "Suc i \<le> length t"
        using lt by simp
    qed
    with lt show ?thesis
      by (simp add: state_at_next)
  qed
  show ?case
  proof (cases "whole_word_at t p i")
    case False
    have "findall_from ?r False (state_at t i) =
            (case snd (state_at t i) of [] \<Rightarrow> []
             | c # cs \<Rightarrow> findall_from ?r False (Some c, cs))"
      using False less.prems
      by (subst findall_from_unfold) (simp add: first_match_phrase_pattern)
    with step disjoint_occurrences_miss [where i = i and n = "length t" and occ = "whole_word_at t p"
          and w = "length p", OF less.prems False]
    show ?thesis by simp
  next
    case True
    then have bound: "i + length p \<le> length t"
      by (simp add: whole_word_at_def occurs_at_def)
    show ?thesis
    proof (cases "p = []")
      case ne: False
      then have pos: "0 < length p" by simp
      have lt: "i < length t"
        using bound pos by linarith
      have neq: "length (snd (state_at t (i + length p))) \<noteq> length (snd (state_at t i))"
        using bound ne by (cases p) (auto simp: snd_state_at)
      have "length (findall_from ?r False (state_at t i))
              = 1 + length (findall_from ?r False (state_at t (i + length p)))"
        using True less.prems ne neq
        by (subst findall_from_unfold) (simp add: first_match_phrase_pattern)
      moreover have "length (findall_from ?r False (state_at t (i + length p)))
                       = ?d (i + length p)"
      proof (rule less.hyps)
        show "length t - (i + length p) < length t - i"
          using bound pos lt by linarith
        show "i + length p \<le> length t"
          by (rule bound)
      qed
      moreover have "max 1 (length p) = length p"
        using ne by (cases p) simp_all
      ultimately show ?thesis
        using disjoint_occurrences_hit [where i = i and n = "length t" and occ = "whole_word_at t p"
          and w = "length p", OF less.prems True] by simp
    next
      case empty: True
      have again: "findall_from ?r True (state_at t i) =
            (case snd (state_at t i) of [] \<Rightarrow> []
             | c # cs \<Rightarrow> findall_from ?r False (Some c, cs))"
        using empty less.prems
        by (subst findall_from_unfold) (simp add: first_match_phrase_pattern)
      have "findall_from ?r False (state_at t i) =
              take 0 (snd (state_at t i)) # findall_from ?r True (state_at t i)"
        using True empty less.prems
        by (subst findall_from_unfold) (simp add: first_match_phrase_pattern)
      with again step have "length (findall_from ?r False (state_at t i)) = 1 + ?d (Suc i)"
        by simp
      with disjoint_occurrences_hit [where i = i and n = "length t" and occ = "whole_word_at t p"
          and w = "length p", OF less.prems True] empty
      show ?thesis by simp
    qed
  qed
qed

lemma findall_phrase_count:
  "length (findall (phrase_pattern p) t)
     = disjoint_occurrences (whole_word_at t p) (length p) (length t) 0"
  using findall_phrase_disjoint [of 0 t p] by (simp add: findall_def state_at_def)

lemma int_sum_list: "int (sum_list xs) = sum_list (map int xs)"
  by (induction xs) simp_all

lemma count_matches_phrase_matches:
  "count_matches text ws = int (sum_list (map (phrase_matches text) ws))"
proof -
  have "(if CHR '' '' \<in> set p then str_count text p
         else int (length (findall (phrase_pattern p) text)))
        = int (phrase_matches text p)" for p
  proof (cases "CHR '' '' \<in> set p")
    case True
    then have "p \<noteq> []" by auto
    from str_count_disjoint [OF this, of 0 "text"] True show ?thesis
      by (simp add: phrase_matches_def)
  next
    case False
    then show ?thesis
      by (simp add: phrase_matches_def findall_phrase_count)
  qed
  then show ?thesis
    by (simp add: count_matches_sum int_sum_list o_def)
qed

lemma member_le_count_matches:
  "p \<in> set ws \<Longrightarrow> int (phrase_matches text p) \<le> count_matches text ws"
  unfolding count_matches_phrase_matches
  using member_le_sum_list [of "phrase_matches text p" "map (phrase_matches text) ws"]
  by simp

subsection \<open>Every field of an extracted record is non-negative\<close>

lemma foldl_nonneg:
  fixes a :: int
  assumes "0 \<le> a" and "\<And>c x. 0 \<le> c \<Longrightarrow> 0 \<le> f c x"
  shows "0 \<le> foldl f a xs"
  using assms(1)
proof (induction xs arbitrary: a)
  case Nil
  then show ?case by simp
next
  case (Cons x xs)
  from assms(2) [OF Cons.prems] have "0 \<le> f a x" .
  from Cons.IH [OF this] show ?case by simp
qed

lemma count_imperatives_nonneg: "0 \<le> count_imperatives text"
  unfolding count_imperatives_def
  by (rule foldl_nonneg) (simp_all split: list.split)

lemma sum_lengths_nonneg: "0 \<le> sum_list (map (\<lambda>w. int (length w)) ws)"
  by (rule sum_list_nonneg) auto

lemma extract_features_nonneg:
  assumes "extract_features self text = Inr f"
  shows "nonneg_fields f" and "long_word_ratio f \<le> 1"
proof -
  have "nonneg_fields f \<and> long_word_ratio f \<le> 1"
  proof (cases "strip text = []")
    case True
    with assms have "f = default_features"
      by (simp add: extract_features_blank)
    then show ?thesis
      by (simp add: nonneg_fields_def default_features_def)
  next
    case nb: False
    show ?thesis
    proof (cases "tokenize_words text = []")
      case True
      with nb assms
      have "f = default_features\<lparr>char_count := int (length text),
                                   sentence_count := max (count_sentences text) 1\<rparr>"
        by (simp add: extract_features_no_words)
      then show ?thesis
        by (simp add: nonneg_fields_def default_features_def)
    next
      case False
      note eq = extract_features_words [OF nb False, of self]
      have f: "f = projr (extract_features self text)"
        using assms by simp
      let ?ws = "tokenize_words text"
      from False have pos: "0 < int (length ?ws)"
        by simp
      have le_long: "int (length (filter (\<lambda>l. long_word_threshold self < l)
                       (map (\<lambda>w. int (length w)) ?ws))) \<le> int (length ?ws)"
        using length_filter_le [of "\<lambda>l. long_word_threshold self < l"
            "map (\<lambda>w. int (length w)) ?ws"]
        by simp
      note lw = ratio_bounds(2) [OF _ le_long pos]
      have sc: "0 \<le> max (count_sentences text) 1"
        by simp
      show ?thesis
        unfolding f eq nonneg_fields_def
        using lw sc
        by (simp add: count_matches_nonneg str_count_nonneg count_imperatives_nonneg
            sum_lengths_nonneg)
    qed
  qed
  then show "nonneg_fields f" and "long_word_ratio f \<le> 1"
    by simp_all
qed

section \<open>The statements of the specification\<close>

subsection \<open>Empty and blank input\<close>

text \<open>
  C1 (as the code has it). For the empty string and for every text of white space only,
  the extractor returns the default record: \<open>word_count = 0\<close>, every ratio and
  density field \<open>0\<close>, and \<open>sentence_count = 0\<close>: the early return comes before the
  sentence count is floored at one.
\<close>

theorem extract_features_blank_default:
  assumes "\<forall>c \<in> set text. is_space c"
  shows "extract_features self text = Inr default_features
       \<and> word_count default_features = 0 \<and> sentence_count default_features = 0
       \<and> long_word_ratio default_features = 0 \<and> exclamation_ratio default_features = 0
       \<and> question_ratio default_features = 0 \<and> caps_ratio default_features = 0
       \<and> hedge_density default_features = 0 \<and> contraction_ratio default_features = 0
       \<and> first_person_ratio default_features = 0 \<and> filler_ratio default_features = 0
       \<and> negative_emotion_density default_features = 0
       \<and> absolutist_density default_features = 0"
proof -
  from assms have "strip text = []"
    by (simp add: strip_empty_iff)
  then have "extract_features self text = Inr default_features"
    by (simp add: extract_features_blank)
  then show ?thesis
    by (simp add: default_features_def)
qed

theorem extract_features_blank_default_witness:
  "extract_features default_extractor ''   '' = Inr default_features
   \<and> word_count default_features = 0 \<and> sentence_count default_features = 0"
proof -
  have sp: "\<forall>c \<in> set ''   ''. is_space c"
    by (simp add: is_space_def code_point_def)
  from extract_features_blank_default [OF sp, of default_extractor] show ?thesis
    by blast
qed

text \<open>
  C1 as stated asks for \<open>sentence_count = 1\<close> on the empty string; the record
  returned there has \<open>sentence_count = 0\<close>.
\<close>

theorem extract_features_empty_sentence_count:
  "extract_features default_extractor '''' = Inr default_features
   \<and> sentence_count default_features \<noteq> 1"
  by (simp add: extract_features_def default_features_def)

subsection \<open>Bounds of the composite scores\<close>

text \<open>
  C3 (as the code has it). On a record whose fields are all non-negative, the scores
  \<open>uncertainty_score\<close>, \<open>uncertainty_score_v2\<close>, \<open>emotional_intensity\<close> and
  \<open>formality_score\<close> lie in \<open>[0,1]\<close>. \<open>complexity_score\<close> is non-negative and at
  most \<open>0.7 + 0.3 * long_word_ratio\<close>: its long-word term is not capped, so it lies
  in \<open>[0,1]\<close> when \<open>long_word_ratio \<le> 1\<close>.
\<close>

theorem composite_scores_bounded:
  assumes "nonneg_fields f"
  shows "0 \<le> uncertainty_score f \<and> uncertainty_score f \<le> 1
       \<and> 0 \<le> uncertainty_score_v2 f \<and> uncertainty_score_v2 f \<le> 1
       \<and> 0 \<le> emotional_intensity f \<and> emotional_intensity f \<le> 1
       \<and> 0 \<le> formality_score f \<and> formality_score f \<le> 1
       \<and> 0 \<le> complexity_score f
       \<and> complexity_score f \<le> 7/10 + long_word_ratio f * (3/10)
       \<and> (long_word_ratio f \<le> 1 \<longrightarrow> complexity_score f \<le> 1)"
proof -
  from assms have nn: "0 \<le> hedge_density f" "0 \<le> question_ratio f"
    "0 \<le> negative_emotion_density f" "0 \<le> first_person_ratio f"
    "0 \<le> exclamation_ratio f" "0 \<le> caps_ratio f"
    "0 \<le> reading_grade_level f" "0 \<le> avg_sentence_length f" "0 \<le> long_word_ratio f"
    by (simp_all add: nonneg_fields_def)
  have c: "complexity_score f \<le> 7/10 + long_word_ratio f * (3/10)"
    by (rule complexity_score_bounds(2) [OF nn(7) nn(8) nn(9)])
  then have "long_word_ratio f \<le> 1 \<longrightarrow> complexity_score f \<le> 1"
    by linarith
  moreover note c
    uncertainty_score_bounds [OF nn(1) nn(2)]
    uncertainty_score_v2_bounds [OF nn(1) nn(2) nn(3) nn(4)]
    emotional_intensity_bounds [OF nn(5) nn(6)]
    formality_score_bounds [of f]
    complexity_score_bounds(1) [OF nn(7) nn(8) nn(9)]
  ultimately show ?thesis
    by blast
qed

theorem composite_scores_bounded_witness:
  "nonneg_fields (default_features\<lparr>hedge_density := 1, long_word_ratio := 1/2\<rparr>)
   \<and> uncertainty_score (default_features\<lparr>hedge_density := 1, long_word_ratio := 1/2\<rparr>) \<le> 1
   \<and> long_word_ratio (default_features\<lparr>hedge_density := 1, long_word_ratio := 1/2\<rparr>) \<le> 1
   \<and> complexity_score (default_features\<lparr>hedge_density := 1, long_word_ratio := 1/2\<rparr>) \<le> 1"
proof -
  have nn: "nonneg_fields (default_features\<lparr>hedge_density := 1, long_word_ratio := 1/2\<rparr>)"
    by (simp add: nonneg_fields_def default_features_def)
  have lw: "long_word_ratio (default_features\<lparr>hedge_density := 1, long_word_ratio := 1/2\<rparr>) \<le> 1"
    by simp
  from composite_scores_bounded [OF nn] nn lw show ?thesis
    by blast
qed

text \<open>
  C3 as stated bounds \<open>complexity_score\<close> by one on every non-negative record; with
  \<open>long_word_ratio = 4\<close> and every other field zero the score is \<open>1.2\<close>.
\<close>

theorem complexity_score_exceeds_one:
  "nonneg_fields (default_features\<lparr>long_word_ratio := 4\<rparr>)
   \<and> complexity_score (default_features\<lparr>long_word_ratio := 4\<rparr>) = 6/5
   \<and> \<not> complexity_score (default_features\<lparr>long_word_ratio := 4\<rparr>) \<le> 1"
  by (simp add: nonneg_fields_def default_features_def complexity_score_def Let_def)

subsection \<open>The syllable estimate\<close>

text \<open>
  C6. For every word, \<^verbatim>\<open>_syllables_in_word\<close> returns the reference value, which is at
  least one: the number of maximal runs of the vowels \<open>a, e, i, o, u, y\<close> in the
  lower-cased word, minus one if the word ends in \<open>e\<close> and that number exceeds one, plus
  one if the word ends in \<open>le\<close>, is longer than two and has no vowel before the \<open>l\<close>,
  the result floored at one.
\<close>

theorem syllables_in_word_reference:
  "syllables_in_word w = Inr (syllables_reference w) \<and> 1 \<le> syllables_reference w"
  using syllables_in_word_eq [of w] syllables_reference_ge1 [of w] by simp

subsection \<open>No failure\<close>

text \<open>
  C9. For every extractor and every text, extraction returns a record: no division
  has a zero denominator, the mean is never taken of an empty list, the index
  \<^verbatim>\<open>word[-3]\<close> is never out of range. Every field of the record is a non-negative
  number, and the five composite scores of the record, which divide by the constants
  \<open>12\<close> and \<open>25\<close> only, lie in \<open>[0,1]\<close>.
\<close>

theorem extract_features_total:
  "\<exists>f. extract_features self text = Inr f
      \<and> nonneg_fields f
      \<and> 0 \<le> uncertainty_score f \<and> uncertainty_score f \<le> 1
      \<and> 0 \<le> uncertainty_score_v2 f \<and> uncertainty_score_v2 f \<le> 1
      \<and> 0 \<le> emotional_intensity f \<and> emotional_intensity f \<le> 1
      \<and> 0 \<le> formality_score f \<and> formality_score f \<le> 1
      \<and> 0 \<le> complexity_score f \<and> complexity_score f \<le> 1"
proof -
  obtain f where f: "extract_features self text = Inr f"
    using extract_features_returns by blast
  note nf = extract_features_nonneg [OF f]
  from nf(1) have nn: "0 \<le> hedge_density f" "0 \<le> question_ratio f"
    "0 \<le> negative_emotion_density f" "0 \<le> first_person_ratio f"
    "0 \<le> exclamation_ratio f" "0 \<le> caps_ratio f"
    "0 \<le> reading_grade_level f" "0 \<le> avg_sentence_length f" "0 \<le> long_word_ratio f"
    by (simp_all add: nonneg_fields_def)
  have "complexity_score f \<le> 7/10 + long_word_ratio f * (3/10)"
    by (rule complexity_score_bounds(2) [OF nn(7) nn(8) nn(9)])
  with nf(2) have c1: "complexity_score f \<le> 1"
    by linarith
  show ?thesis
  proof (intro exI conjI)
    show "extract_features self text = Inr f" by (rule f)
    show "nonneg_fields f" by (rule nf(1))
    show "0 \<le> uncertainty_score f" by (rule uncertainty_score_bounds(1) [OF nn(1) nn(2)])
    show "uncertainty_score f \<le> 1" by (rule uncertainty_score_bounds(2) [OF nn(1) nn(2)])
    show "0 \<le> uncertainty_score_v2 f"
      by (rule uncertainty_score_v2_bounds(1) [OF nn(1) nn(2) nn(3) nn(4)])
    show "uncertainty_score_v2 f \<le> 1"
      by (rule uncertainty_score_v2_bounds(2) [OF nn(1) nn(2) nn(3) nn(4)])
    show "0 \<le> emotional_intensity f" by (rule emotional_intensity_bounds(1) [OF nn(5) nn(6)])
    show "emotional_intensity f \<le> 1" by (rule emotional_intensity_bounds(2) [OF nn(5) nn(6)])
    show "0 \<le> formality_score f" by (rule formality_score_bounds(1))
    show "formality_score f \<le> 1" by (rule formality_score_bounds(2))
    show "0 \<le> complexity_score f" by (rule complexity_score_bounds(1) [OF nn(7) nn(8) nn(9)])
    show "complexity_score f \<le> 1" by (rule c1)
  qed
qed

subsection \<open>Ratios over the word count\<close>

text \<open>
  C2 (as the code has it). For every text, extraction returns a record in which
  \<open>long_word_ratio\<close>, \<open>caps_ratio\<close> and \<open>first_person_ratio\<close> lie in \<open>[0,1]\<close>,
  \<open>contraction_ratio\<close> and \<open>filler_ratio\<close> are non-negative, and all five are \<open>0\<close>
  whenever \<open>word_count = 0\<close>. The last two divide a count of pattern matches in the
  text, not a count of tokens, by the word count, and have no upper bound of one.
\<close>

theorem word_ratio_bounds:
  "\<exists>f. extract_features self text = Inr f
      \<and> 0 \<le> long_word_ratio f \<and> long_word_ratio f \<le> 1
      \<and> 0 \<le> caps_ratio f \<and> caps_ratio f \<le> 1
      \<and> 0 \<le> first_person_ratio f \<and> first_person_ratio f \<le> 1
      \<and> 0 \<le> contraction_ratio f \<and> 0 \<le> filler_ratio f
      \<and> (word_count f = 0 \<longrightarrow>
            long_word_ratio f = 0 \<and> caps_ratio f = 0 \<and> contraction_ratio f = 0
            \<and> first_person_ratio f = 0 \<and> filler_ratio f = 0)"
proof (cases "strip text = []")
  case True
  then have "extract_features self text = Inr default_features"
    by (simp add: extract_features_blank)
  then show ?thesis
    by (simp add: default_features_def)
next
  case nb: False
  show ?thesis
  proof (cases "tokenize_words text = []")
    case True
    with nb show ?thesis
      by (simp add: extract_features_no_words default_features_def)
  next
    case False
    let ?ws = "tokenize_words text"
    from False have pos: "0 < int (length ?ws)"
      by simp
    have le: "\<And>P. int (length (filter P ?ws)) \<le> int (length ?ws)"
      by simp
    have le_long: "int (length (filter (\<lambda>l. long_word_threshold self < l)
                     (map (\<lambda>w. int (length w)) ?ws))) \<le> int (length ?ws)"
      using length_filter_le [of "\<lambda>l. long_word_threshold self < l" "map (\<lambda>w. int (length w)) ?ws"]
      by simp
    have le_fp: "int (length (filter (\<lambda>w. w \<in> set FIRST_PERSON) (map lower ?ws)))
                   \<le> int (length ?ws)"
      using length_filter_le [of "\<lambda>w. w \<in> set FIRST_PERSON" "map lower ?ws"]
      by simp
    note b1 = ratio_bounds [OF _ le_long pos] ratio_bounds [OF _ le pos]
      ratio_bounds [OF _ le_fp pos]
    note b2 = ratio_nonneg [OF _ pos]
    from nb False pos show ?thesis
      by (simp add: extract_features_words b1 b2 count_matches_nonneg)
  qed
qed

theorem word_ratio_bounds_witness:
  "\<exists>f. extract_features default_extractor ''42!'' = Inr f
      \<and> word_count f = 0
      \<and> long_word_ratio f = 0 \<and> caps_ratio f = 0 \<and> contraction_ratio f = 0
      \<and> first_person_ratio f = 0 \<and> filler_ratio f = 0"
proof -
  from word_ratio_bounds [of default_extractor "''42!''"]
  obtain f where f: "extract_features default_extractor ''42!'' = Inr f"
    and z: "word_count f = 0 \<longrightarrow>
            long_word_ratio f = 0 \<and> caps_ratio f = 0 \<and> contraction_ratio f = 0
            \<and> first_person_ratio f = 0 \<and> filler_ratio f = 0"
    by blast
  from f have "f = default_features\<lparr>char_count := 3, sentence_count := 1\<rparr>"
    by (simp add: extract_features_digits)
  then have "word_count f = 0"
    by (simp add: default_features_def)
  with f z show ?thesis
    by blast
qed

text \<open>
  C2 as stated bounds all five ratios by one. The text \<^verbatim>\<open>um'um\<close> is one token and has
  two matches of the filler \<^verbatim>\<open>um\<close>; the text \<^verbatim>\<open>a 1'1 2'2\<close> has one token and two
  matches of \<^verbatim>\<open>\b\w+'\w+\b\<close>. Both ratios are \<open>2\<close>.
\<close>

theorem filler_and_contraction_ratio_exceed_one:
  "map_sum id filler_ratio (extract_features default_extractor ''um'um'') = Inr 2
   \<and> map_sum id contraction_ratio (extract_features default_extractor ''a 1'1 2'2'') = Inr 2"
proof -
  have um: "strip ''um'um'' \<noteq> []" "tokenize_words ''um'um'' = [''um'um'']"
    "count_matches (lower ''um'um'') FILLER_WORDS = 2"
    by code_simp+
  have c: "strip ''a 1'1 2'2'' \<noteq> []" "tokenize_words ''a 1'1 2'2'' = [''a'']"
    "length (findall contraction_pattern (lower ''a 1'1 2'2'')) = 2"
    by code_simp+
  have "map_sum id filler_ratio (extract_features default_extractor ''um'um'') = Inr 2"
    using um by (simp add: extract_features_words)
  moreover have "map_sum id contraction_ratio
      (extract_features default_extractor ''a 1'1 2'2'') = Inr 2"
    using c by (simp add: extract_features_words)
  ultimately show ?thesis
    by simp
qed

subsection \<open>Text without a word\<close>

text \<open>
  C4 (as the code has it). For every non-empty text on which extraction yields
  \<open>word_count = 0\<close>, the record is the default one in every field except
  \<open>char_count\<close> and \<open>sentence_count\<close>; in particular every ratio over the word count
  is \<open>0\<close>. For a text of white space only it is the all-zero default; otherwise
  \<open>char_count\<close> is the length of the text, which is positive, and \<open>sentence_count\<close>
  is the number of runs of terminators floored at one.
\<close>

theorem extract_features_no_words_record:
  assumes "text \<noteq> []" and "extract_features self text = Inr f" and "word_count f = 0"
  shows "f = default_features\<lparr>char_count := char_count f, sentence_count := sentence_count f\<rparr>
       \<and> (if strip text = [] then f = default_features
          else char_count f = int (length text) \<and> 0 < char_count f
             \<and> sentence_count f = count_sentences text \<and> 1 \<le> sentence_count f)
       \<and> long_word_ratio f = 0 \<and> caps_ratio f = 0 \<and> contraction_ratio f = 0
       \<and> first_person_ratio f = 0 \<and> filler_ratio f = 0"
proof (cases "strip text = []")
  case True
  with assms(2) have "f = default_features"
    by (simp add: extract_features_blank)
  with True show ?thesis
    by (simp add: default_features_def)
next
  case nb: False
  show ?thesis
  proof (cases "tokenize_words text = []")
    case True
    have "max (count_sentences text) 1 = count_sentences text"
      using count_sentences_ge1 [of "text"] by simp
    with nb True assms(2)
    have "f = default_features\<lparr>char_count := int (length text),
                                 sentence_count := count_sentences text\<rparr>"
      by (simp add: extract_features_no_words)
    with nb assms(1) count_sentences_ge1 [of "text"] show ?thesis
      by (simp add: default_features_def)
  next
    case False
    with nb assms(2) have "word_count f = int (length (tokenize_words text))"
      by (auto simp: extract_features_words)
    with False assms(3) show ?thesis
      by simp
  qed
qed

theorem extract_features_no_words_record_witness:
  "default_features\<lparr>char_count := 3, sentence_count := 1\<rparr>
     = default_features\<lparr>char_count := 3, sentence_count := 1\<rparr>
         \<lparr>char_count := char_count (default_features\<lparr>char_count := 3, sentence_count := 1\<rparr>),
          sentence_count := sentence_count (default_features\<lparr>char_count := 3, sentence_count := 1\<rparr>)\<rparr>
   \<and> char_count (default_features\<lparr>char_count := 3, sentence_count := 1\<rparr>) = int (length ''42!'')
   \<and> 1 \<le> sentence_count (default_features\<lparr>char_count := 3, sentence_count := 1\<rparr>)
   \<and> filler_ratio (default_features\<lparr>char_count := 3, sentence_count := 1\<rparr>) = 0"
proof -
  have ne: "''42!'' \<noteq> []"
    by simp
  have wc: "word_count (default_features\<lparr>char_count := 3, sentence_count := 1\<rparr>) = 0"
    by (simp add: default_features_def)
  have nb: "strip ''42!'' \<noteq> []"
    by code_simp
  from extract_features_no_words_record [OF ne extract_features_digits wc] nb show ?thesis
    by simp
qed

text \<open>
  C4 as stated makes the record the all-zero default; for the text \<^verbatim>\<open>42!\<close> it has
  \<open>char_count = 3\<close> and \<open>sentence_count = 1\<close>.
\<close>

theorem extract_features_digits_not_default:
  "extract_features default_extractor ''42!''
     = Inr (default_features\<lparr>char_count := 3, sentence_count := 1\<rparr>)
   \<and> default_features\<lparr>char_count := 3, sentence_count := 1\<rparr> \<noteq> default_features"
proof -
  have "char_count (default_features\<lparr>char_count := 3, sentence_count := 1\<rparr>)
          \<noteq> char_count default_features"
    by (simp add: default_features_def)
  then have "default_features\<lparr>char_count := 3, sentence_count := 1\<rparr> \<noteq> default_features"
    by metis
  with extract_features_digits show ?thesis
    by simp
qed

subsection \<open>Readability\<close>

text \<open>
  C7. Whenever \<open>word_count > 0\<close> and \<open>sentence_count > 0\<close>, \<open>reading_grade_level\<close> is
  \<open>max(0, 0.39 * (word_count / sentence_count) + 11.8 * (total_syllables / word_count)
  - 15.59)\<close>, where \<open>total_syllables\<close> is the sum of the syllable estimates of the
  words. The words \<open>cat, dog, sat\<close> have three syllables in total; in one sentence the
  formula gives \<open>0.39 * 3 + 11.8 * 1 - 15.59 = -2.62\<close>, floored to \<open>0\<close>.
\<close>

theorem reading_grade_level_formula:
  "(\<exists>f. extract_features self text = Inr f
      \<and> (0 < word_count f \<and> 0 < sentence_count f \<longrightarrow>
           (\<exists>total_syllables. sum_syllables (tokenize_words text) = Inr total_syllables
              \<and> reading_grade_level f =
                  max 0 (0.39 * (of_int (word_count f) / of_int (sentence_count f))
                         + 11.8 * (of_int total_syllables / of_int (word_count f))
                         - 15.59))))
   \<and> sum_syllables [''cat'', ''dog'', ''sat''] = Inr 3
   \<and> 0.39 * (3 / 1) + 11.8 * (3 / 3) - 15.59 = (- 2.62 :: rat)
   \<and> max 0 (0.39 * (3 / 1) + 11.8 * (3 / 3) - 15.59) = (0 :: rat)"
proof -
  have general: "\<exists>f. extract_features self text = Inr f
      \<and> (0 < word_count f \<and> 0 < sentence_count f \<longrightarrow>
           (\<exists>total_syllables. sum_syllables (tokenize_words text) = Inr total_syllables
              \<and> reading_grade_level f =
                  max 0 (0.39 * (of_int (word_count f) / of_int (sentence_count f))
                         + 11.8 * (of_int total_syllables / of_int (word_count f))
                         - 15.59)))"
  proof (cases "strip text = []")
    case True
    then have "extract_features self text = Inr default_features"
      by (simp add: extract_features_blank)
    then show ?thesis
      by (simp add: default_features_def)
  next
    case nb: False
    show ?thesis
    proof (cases "tokenize_words text = []")
      case True
      with nb show ?thesis
        by (simp add: extract_features_no_words default_features_def)
    next
      case False
      with nb show ?thesis
        by (simp add: extract_features_words sum_syllables_eq)
    qed
  qed
  have cat: "sum_syllables [''cat'', ''dog'', ''sat''] = Inr 3"
    by code_simp
  have "0.39 * (3 / 1) + 11.8 * (3 / 3) - 15.59 = (- 2.62 :: rat)"
    by simp
  moreover have "max 0 (0.39 * (3 / 1) + 11.8 * (3 / 3) - 15.59) = (0 :: rat)"
    by simp
  ultimately show ?thesis
    using general cat by blast
qed

theorem reading_grade_level_formula_witness:
  "\<exists>f. extract_features default_extractor ''cat dog sat'' = Inr f
      \<and> word_count f = 3 \<and> sentence_count f = 1
      \<and> sum_syllables (tokenize_words ''cat dog sat'') = Inr 3
      \<and> reading_grade_level f = 0"
proof -
  have ev: "strip ''cat dog sat'' \<noteq> []"
    "tokenize_words ''cat dog sat'' = [''cat'', ''dog'', ''sat'']"
    "count_sentences ''cat dog sat'' = 1"
    "sum_syllables [''cat'', ''dog'', ''sat''] = Inr 3"
    by code_simp+
  from reading_grade_level_formula [of default_extractor "''cat dog sat''"]
  obtain f where f: "extract_features default_extractor ''cat dog sat'' = Inr f"
    and g: "0 < word_count f \<and> 0 < sentence_count f \<longrightarrow>
           (\<exists>total_syllables.
              sum_syllables (tokenize_words ''cat dog sat'') = Inr total_syllables
              \<and> reading_grade_level f =
                  max 0 (0.39 * (of_int (word_count f) / of_int (sentence_count f))
                         + 11.8 * (of_int total_syllables / of_int (word_count f))
                         - 15.59))"
    by blast
  from f ev have cnt: "word_count f = 3" "sentence_count f = 1"
    by (auto simp: extract_features_words)
  with g ev have "reading_grade_level f = 0"
    by auto
  with f cnt ev show ?thesis
    by simp
qed

subsection \<open>Adding exclamation marks\<close>

text \<open>
  C5 (as the code has it). Let \<open>T'\<close> be \<open>T\<close> with exclamation marks added and nothing
  else changed. If the added marks leave the word tokens and the number of runs of
  sentence terminators as they were (marks added to a run that is already there), then
  \<open>exclamation_ratio\<close> of \<open>T'\<close> is at least that of \<open>T\<close>, and so is
  \<open>emotional_intensity\<close>.
\<close>

theorem exclamation_monotone:
  assumes "adds_exclamations T T'"
    and "tokenize_words T' = tokenize_words T"
    and "count_sentences T' = count_sentences T"
  shows "\<exists>f f'. extract_features self T = Inr f \<and> extract_features self T' = Inr f'
           \<and> exclamation_ratio f \<le> exclamation_ratio f'
           \<and> emotional_intensity f \<le> emotional_intensity f'"
proof -
  obtain f where f: "extract_features self T = Inr f"
    using extract_features_returns by blast
  obtain f' where f': "extract_features self T' = Inr f'"
    using extract_features_returns by blast
  have "exclamation_ratio f \<le> exclamation_ratio f' \<and> caps_ratio f \<le> caps_ratio f'"
  proof (cases "strip T = [] \<or> tokenize_words T = []")
    case True
    from extract_features_wordless_fields(1,2) [OF True f] exclamation_caps_nonneg [OF f']
    show ?thesis by simp
  next
    case False
    then have nb: "strip T \<noteq> []" "tokenize_words T \<noteq> []" by simp_all
    have nb': "strip T' \<noteq> []"
    proof
      assume "strip T' = []"
      then have "\<forall>c \<in> set T'. is_space c" by (simp add: strip_empty_iff)
      with adds_exclamations_set [OF assms(1)] have "\<forall>c \<in> set T. is_space c" by blast
      with nb(1) show False by (simp add: strip_empty_iff)
    qed
    from nb assms(2) have tk': "tokenize_words T' \<noteq> []" by simp
    have cnt: "str_count T ''!'' \<le> str_count T' ''!''"
      using adds_exclamations_count [OF assms(1)] by (simp add: str_count_char)
    have "exclamation_ratio f \<le> exclamation_ratio f'"
      unfolding extract_features_words_fields(3) [OF nb f]
        extract_features_words_fields(3) [OF nb' tk' f'] assms(3)
      using cnt by (simp add: divide_right_mono)
    moreover have "caps_ratio f = caps_ratio f'"
      unfolding extract_features_words_fields(4) [OF nb f]
        extract_features_words_fields(4) [OF nb' tk' f'] assms(2)
      by simp
    ultimately show ?thesis by simp
  qed
  then have r: "exclamation_ratio f \<le> exclamation_ratio f'"
    and c: "caps_ratio f \<le> caps_ratio f'"
    by simp_all
  have ei: "emotional_intensity f \<le> emotional_intensity f'"
    using r c by (rule emotional_intensity_mono)
  show ?thesis
  proof (intro exI conjI)
    show "extract_features self T = Inr f" by (rule f)
    show "extract_features self T' = Inr f'" by (rule f')
    show "exclamation_ratio f \<le> exclamation_ratio f'" by (rule r)
    show "emotional_intensity f \<le> emotional_intensity f'" by (rule ei)
  qed
qed

theorem exclamation_monotone_witness:
  "\<exists>f f'. extract_features default_extractor ''hi!'' = Inr f
         \<and> extract_features default_extractor ''hi!!'' = Inr f'
         \<and> exclamation_ratio f \<le> exclamation_ratio f'
         \<and> emotional_intensity f \<le> emotional_intensity f'"
proof -
  have a: "adds_exclamations ''hi!'' ''hi!!''"
    by simp
  have t: "tokenize_words ''hi!!'' = [''hi'']" "tokenize_words ''hi!'' = [''hi'']"
    by code_simp+
  have s: "count_sentences ''hi!!'' = 1" "count_sentences ''hi!'' = 1"
    by code_simp+
  have b: "tokenize_words ''hi!!'' = tokenize_words ''hi!''"
    by (simp only: t)
  have c: "count_sentences ''hi!!'' = count_sentences ''hi!''"
    by (simp only: s)
  show ?thesis
    by (rule exclamation_monotone [of "''hi!''" "''hi!!''" default_extractor, OF a b c])
qed

text \<open>
  C5 as stated has no condition on where the marks go. A mark that starts a new run of
  terminators raises \<open>sentence_count\<close>: from \<^verbatim>\<open>a!!b\<close> to \<^verbatim>\<open>a!!b!\<close> the ratio falls
  from \<open>2\<close> to \<open>3/2\<close>. A mark inside a word splits the token: from \<^verbatim>\<open>AB . . . . . .\<close>
  to \<^verbatim>\<open>A!B . . . . . .\<close> the only upper-case word is lost and \<open>emotional_intensity\<close>
  falls from \<open>1/2\<close> to \<open>5/14\<close>.
\<close>

theorem exclamation_not_monotone:
  "adds_exclamations ''a!!b'' ''a!!b!''
   \<and> map_sum id exclamation_ratio (extract_features default_extractor ''a!!b'') = Inr 2
   \<and> map_sum id exclamation_ratio (extract_features default_extractor ''a!!b!'') = Inr (3 / 2)
   \<and> adds_exclamations ''AB . . . . . .'' ''A!B . . . . . .''
   \<and> map_sum id emotional_intensity
        (extract_features default_extractor ''AB . . . . . .'') = Inr (1 / 2)
   \<and> map_sum id emotional_intensity
        (extract_features default_extractor ''A!B . . . . . .'') = Inr (5 / 14)"
proof -
  have t1: "strip ''a!!b'' \<noteq> []" "tokenize_words ''a!!b'' = [''a'', ''b'']"
    "count_sentences ''a!!b'' = 1" "str_count ''a!!b'' ''!'' = 2"
    by code_simp+
  have t2: "strip ''a!!b!'' \<noteq> []" "tokenize_words ''a!!b!'' = [''a'', ''b'']"
    "count_sentences ''a!!b!'' = 2" "str_count ''a!!b!'' ''!'' = 3"
    by code_simp+
  have t3: "strip ''AB . . . . . .'' \<noteq> []" "tokenize_words ''AB . . . . . .'' = [''AB'']"
    "count_sentences ''AB . . . . . .'' = 6" "str_count ''AB . . . . . .'' ''!'' = 0"
    "isupper ''AB''"
    by code_simp+
  have t4: "strip ''A!B . . . . . .'' \<noteq> []"
    "tokenize_words ''A!B . . . . . .'' = [''A'', ''B'']"
    "count_sentences ''A!B . . . . . .'' = 7" "str_count ''A!B . . . . . .'' ''!'' = 1"
    by code_simp+
  have "map_sum id exclamation_ratio (extract_features default_extractor ''a!!b'') = Inr 2"
    using t1 by (simp add: extract_features_words)
  moreover
  have "map_sum id exclamation_ratio (extract_features default_extractor ''a!!b!'')
          = Inr (3 / 2)"
    using t2 by (simp add: extract_features_words)
  moreover
  have "map_sum id emotional_intensity
          (extract_features default_extractor ''AB . . . . . .'') = Inr (1 / 2)"
    using t3 by (simp add: extract_features_words emotional_intensity_def
        default_extractor_def Let_def)
  moreover
  have "map_sum id emotional_intensity
          (extract_features default_extractor ''A!B . . . . . .'') = Inr (5 / 14)"
    using t4 by (simp add: extract_features_words emotional_intensity_def
        default_extractor_def Let_def)
  ultimately show ?thesis
    by simp
qed

subsection \<open>Contractions and the first person\<close>

text \<open>
  C10. The tokenizer gives \<^verbatim>\<open>I'm\<close> and \<^verbatim>\<open>I've\<close> as single tokens; the first-person
  count compares whole lower-cased tokens with the list of bare pronouns, so a token
  with an apostrophe is never counted; and for every text in which each token that
  starts with a first-person pronoun (the part before its apostrophe, lower-cased, is
  on the list) is a contraction, \<open>first_person_ratio\<close> is \<open>0\<close>.
\<close>

theorem contractions_not_first_person:
  "tokenize_words ''I'm'' = [''I'm''] \<and> tokenize_words ''I've'' = [''I've'']
   \<and> (\<forall>w. CHR 0x27 \<in> set w \<longrightarrow> lower w \<notin> set FIRST_PERSON)
   \<and> ((\<forall>w \<in> set (tokenize_words text).
          lower (takeWhile (\<lambda>c. c \<noteq> CHR 0x27) w) \<in> set FIRST_PERSON \<longrightarrow> CHR 0x27 \<in> set w)
        \<longrightarrow> (\<exists>f. extract_features self text = Inr f \<and> first_person_ratio f = 0))"
proof -
  have tok: "tokenize_words ''I'm'' = [''I'm'']" "tokenize_words ''I've'' = [''I've'']"
    by code_simp+
  have main: "\<exists>f. extract_features self text = Inr f \<and> first_person_ratio f = 0"
    if h: "\<forall>w \<in> set (tokenize_words text).
          lower (takeWhile (\<lambda>c. c \<noteq> CHR 0x27) w) \<in> set FIRST_PERSON \<longrightarrow> CHR 0x27 \<in> set w"
  proof -
    obtain f where f: "extract_features self text = Inr f"
      using extract_features_returns by blast
    have "first_person_ratio f = 0"
    proof (cases "strip text = [] \<or> tokenize_words text = []")
      case True
      from extract_features_wordless_fields(3) [OF True f] show ?thesis .
    next
      case False
      then have nb: "strip text \<noteq> []" "tokenize_words text \<noteq> []" by simp_all
      have none: "lower w \<notin> set FIRST_PERSON" if w: "w \<in> set (tokenize_words text)" for w
      proof
        assume fp: "lower w \<in> set FIRST_PERSON"
        then have "CHR 0x27 \<notin> set w"
          using contraction_not_in_first_person by blast
        then have tw: "takeWhile (\<lambda>c. c \<noteq> CHR 0x27) w = w"
          by (auto simp: takeWhile_eq_all_conv)
        from h w have "lower (takeWhile (\<lambda>c. c \<noteq> CHR 0x27) w) \<in> set FIRST_PERSON
            \<longrightarrow> CHR 0x27 \<in> set w"
          by blast
        with fp have "CHR 0x27 \<in> set w"
          unfolding tw by blast
        with \<open>CHR 0x27 \<notin> set w\<close> show False by simp
      qed
      have "filter (\<lambda>w. w \<in> set FIRST_PERSON) (map lower (tokenize_words text)) = []"
        using none by (auto simp: filter_empty_conv)
      then show ?thesis
        unfolding extract_features_words_fields(5) [OF nb f] by simp
    qed
    with f show ?thesis by blast
  qed
  from tok main contraction_not_in_first_person show ?thesis
    by blast
qed

theorem contractions_not_first_person_witness:
  "\<exists>f. extract_features default_extractor ''I'm fine'' = Inr f \<and> first_person_ratio f = 0"
proof -
  have tk: "tokenize_words ''I'm fine'' = [''I'm'', ''fine'']"
    by code_simp
  have h: "\<forall>w \<in> set (tokenize_words ''I'm fine'').
          lower (takeWhile (\<lambda>c. c \<noteq> CHR 0x27) w) \<in> set FIRST_PERSON \<longrightarrow> CHR 0x27 \<in> set w"
    unfolding tk by code_simp
  from contractions_not_first_person [of "''I'm fine''" default_extractor] h show ?thesis
    by blast
qed

subsection \<open>Counting the matches of a word list\<close>

text \<open>
  C8 (as the code has it). For every text and every word list, \<^verbatim>\<open>_count_matches\<close>
  returns the sum over the phrases of the list of: for a phrase with a space, the
  number of its literal occurrences in the text, found from left to right with the
  search resuming behind each occurrence; for a phrase without a space, the number of
  its occurrences with a word boundary on both sides, found in the same way. Each
  phrase and each list is searched on its own, so \<open>always\<close>, which is on the certainty
  list and on the absolutist list, adds to both counts.
\<close>

theorem count_matches_disjoint_occurrences:
  "count_matches text word_list = int (sum_list (map (phrase_matches text) word_list))
   \<and> ''always'' \<in> set CERTAINTY_MARKERS \<and> ''always'' \<in> set ABSOLUTIST_WORDS
   \<and> int (phrase_matches text ''always'') \<le> count_matches text CERTAINTY_MARKERS
   \<and> int (phrase_matches text ''always'') \<le> count_matches text ABSOLUTIST_WORDS"
proof -
  have c: "''always'' \<in> set CERTAINTY_MARKERS"
    by (simp add: CERTAINTY_MARKERS_def)
  have a: "''always'' \<in> set ABSOLUTIST_WORDS"
    by (simp add: ABSOLUTIST_WORDS_def)
  from c a member_le_count_matches [OF c] member_le_count_matches [OF a]
    count_matches_phrase_matches [of "text" word_list]
  show ?thesis
    by simp
qed

text \<open>
  C8 as stated counts every occurrence of a phrase. In \<^verbatim>\<open>excuse mexcuse me\<close> the
  phrase \<^verbatim>\<open>excuse me\<close> of the politeness list stands at positions 0 and 8, sharing
  one letter; \<^verbatim>\<open>str.count\<close> finds the first occurrence only.
\<close>

theorem count_matches_overlapping_occurrences:
  "count_matches ''excuse mexcuse me'' POLITENESS_MARKERS = 1
   \<and> matches_as_stated ''excuse mexcuse me'' POLITENESS_MARKERS = 2"
proof -
  have "count_matches ''excuse mexcuse me'' POLITENESS_MARKERS = 1"
    by code_simp
  moreover have "matches_as_stated ''excuse mexcuse me'' POLITENESS_MARKERS = 2"
    by code_simp
  ultimately show ?thesis
    by simp
qed

end
